theory Spec2Isabelle
  imports Main "HOL-Library.Word"
begin

unbundle bit_operations_syntax

section \<open>PERSIMQ: a persistent single-process message queue (persimq.c)\<close>

text \<open>
  The embedding follows \<^verbatim>\<open>persimq.c\<close> on an LP64 little-endian target:
  \<^verbatim>\<open>off_t\<close> and \<^verbatim>\<open>size_t\<close> are 64-bit words (signed comparisons are written
  \<open><s\<close>; where C mixes \<^verbatim>\<open>off_t\<close> with \<^verbatim>\<open>size_t\<close> the usual arithmetic
  conversions make the operation unsigned, which is the plain word operation),
  \<^verbatim>\<open>int\<close> is a 32-bit word, a byte is an 8-bit word.
\<close>

type_synonym byte = "8 word"
type_synonym off_t = "64 word"
type_synonym size_t = "64 word"

subsection \<open>Sizes of the two packed records\<close>

text \<open>\<^verbatim>\<open>sizeof(TFileHeader)\<close> = 4 + 5 * 8 + 1 (packed); \<^verbatim>\<open>sizeof(TMessageHeader)\<close> = 3 + 1 + 4.\<close>

definition sizeof_TFileHeader :: "64 word" where
  "sizeof_TFileHeader = 45"

definition sizeof_TMessageHeader :: "64 word" where
  "sizeof_TMessageHeader = 8"

definition wrap_lo_margin :: off_t where
  "wrap_lo_margin = sizeof_TFileHeader"

subsection \<open>Checksum\<close>

text \<open>One turn of the inner loop of \<^verbatim>\<open>eval_crc8\<close>; the shift is truncated to 8 bits by
  the assignment to the \<^verbatim>\<open>uint8_t\<close>.\<close>

definition crc8_shift :: "byte \<Rightarrow> byte" where
  "crc8_shift crc = (if crc AND 0x80 \<noteq> 0 then push_bit 1 crc XOR 0x8C else push_bit 1 crc)"

primrec crc8_bits :: "nat \<Rightarrow> byte \<Rightarrow> byte" where
  "crc8_bits 0 crc = crc"
| "crc8_bits (Suc n) crc = crc8_bits n (crc8_shift crc)"

definition crc8_step :: "byte \<Rightarrow> byte \<Rightarrow> byte" where
  "crc8_step crc b = crc8_bits 8 (crc XOR b)"

text \<open>\<^verbatim>\<open>eval_crc8(data, length)\<close>: the span is the list of the \<^verbatim>\<open>length\<close> bytes at \<^verbatim>\<open>data\<close>.\<close>

definition eval_crc8 :: "byte list \<Rightarrow> byte" where
  "eval_crc8 data = foldl crc8_step 0 data"

subsection \<open>Address mapper\<close>

text \<open>
  \<^verbatim>\<open>offset_roll\<close>. \<^verbatim>\<open>sub_offset + increment\<close> mixes \<^verbatim>\<open>off_t\<close> and \<^verbatim>\<open>size_t\<close>, so the sum,
  the remainder and the final addition are unsigned 64-bit operations. C leaves the
  remainder undefined when \<^verbatim>\<open>wrap_hi_margin = wrap_lo_margin\<close>; every statement below
  about this function assumes \<open>wrap_lo_margin <s wrap_hi_margin\<close>, which
  \<^verbatim>\<open>PERSIMQ_open\<close> establishes for the file size of every handle it fills in.
\<close>

definition offset_roll :: "off_t \<Rightarrow> off_t \<Rightarrow> size_t \<Rightarrow> off_t" where
  "offset_roll current_offset wrap_hi_margin increment =
     (let sub_offset = (if current_offset <s wrap_lo_margin then wrap_lo_margin
                        else current_offset - wrap_lo_margin);
          sub_margin = wrap_hi_margin - wrap_lo_margin
      in ((sub_offset + increment) mod sub_margin) + wrap_lo_margin)"

subsection \<open>The backing file and the POSIX calls on it\<close>

text \<open>
  One regular file: its bytes and the position of the open descriptor. The calls never
  fail for reasons outside the program (no \<^verbatim>\<open>EIO\<close>, no signal): \<^verbatim>\<open>lseek\<close> fails only on
  a negative offset, \<^verbatim>\<open>read\<close> returns the bytes available up to the count (0 at end of
  file or for a zero count), \<^verbatim>\<open>write\<close> stores the whole span (0 for a zero count),
  extending the file with zeroes over a hole.
\<close>

record qfile =
  content :: "byte list"
  fpos :: nat

definition lseek_set :: "qfile \<Rightarrow> off_t \<Rightarrow> bool \<times> qfile" where
  "lseek_set f off = (if off <s 0 then (False, f) else (True, f\<lparr>fpos := unat off\<rparr>))"

definition sys_read :: "qfile \<Rightarrow> nat \<Rightarrow> byte list \<times> qfile" where
  "sys_read f n = (let bs = take n (drop (fpos f) (content f))
                   in (bs, f\<lparr>fpos := fpos f + length bs\<rparr>))"

definition sys_write :: "qfile \<Rightarrow> byte list \<Rightarrow> nat \<times> qfile" where
  "sys_write f bs =
     (if bs = [] then (0, f)
      else (length bs,
            f\<lparr>content := take (fpos f) (content f) @ replicate (fpos f - length (content f)) 0
                          @ bs @ drop (fpos f + length bs) (content f),
              fpos := fpos f + length bs\<rparr>))"

text \<open>\<^verbatim>\<open>multiread\<close>: the do-while loop; the first component is the function's result, the
  second the bytes stored at \<^verbatim>\<open>data\<close> so far.\<close>

function multiread :: "qfile \<Rightarrow> nat \<Rightarrow> bool \<times> byte list \<times> qfile" where
  "multiread f len =
     (case sys_read f len of (bs, f') \<Rightarrow>
        if length bs = 0 then (False, [], f')
        else if len - length bs \<noteq> 0
             then (case multiread f' (len - length bs) of
                     (ok, rest, f'') \<Rightarrow> (ok, bs @ rest, f''))
             else (True, bs, f'))"
  by pat_completeness auto
termination
  by (relation "measure (\<lambda>(f, len). len)") auto

declare multiread.simps [simp del]

text \<open>\<^verbatim>\<open>multiwrite\<close>: the same loop around \<^verbatim>\<open>write\<close>.\<close>

function multiwrite :: "qfile \<Rightarrow> byte list \<Rightarrow> bool \<times> qfile" where
  "multiwrite f bs =
     (case sys_write f bs of (n, f') \<Rightarrow>
        if n = 0 then (False, f')
        else if length bs - n \<noteq> 0 then multiwrite f' (drop n bs)
        else (True, f'))"
  by pat_completeness auto
termination
  by (relation "measure (\<lambda>(f, bs). length bs)") (auto simp: sys_write_def split: if_splits)

declare multiwrite.simps [simp del]

subsection \<open>Wrapped I/O\<close>

text \<open>
  A buffer (\<^verbatim>\<open>void* data\<close>) is the list of the bytes stored from the pointer on. Writing takes
  the first \<open>n\<close> of them; reading stores the bytes it gets over the front of the buffer.
  \<^verbatim>\<open>io_function\<close> is the function pointer chosen by \<^verbatim>\<open>do_write\<close>.
\<close>

definition io_function :: "bool \<Rightarrow> qfile \<Rightarrow> byte list \<Rightarrow> nat \<Rightarrow> bool \<times> byte list \<times> qfile" where
  "io_function do_write f data n =
     (if do_write
      then (case multiwrite f (take n data) of (ok, f') \<Rightarrow> (ok, data, f'))
      else (case multiread f n of (ok, bs, f') \<Rightarrow> (ok, bs @ drop (length bs) data, f')))"

text \<open>An out-parameter is \<open>None\<close> for a null pointer and \<open>Some v\<close> for a cell holding \<open>v\<close>;
  \<^verbatim>\<open>if (p) *p = v\<close> is \<open>store_out p v\<close>.\<close>

definition store_out :: "'a option \<Rightarrow> 'a \<Rightarrow> 'a option" where
  "store_out p v = (case p of None \<Rightarrow> None | Some _ \<Rightarrow> Some v)"

definition wrapped_io ::
  "qfile \<Rightarrow> byte list \<Rightarrow> size_t \<Rightarrow> off_t \<Rightarrow> off_t \<Rightarrow> off_t option \<Rightarrow> bool
     \<Rightarrow> bool \<times> byte list \<times> qfile \<times> off_t option" where
  "wrapped_io f data len offset0 wrap_hi_margin next_offset do_write =
     (let offset = offset_roll offset0 wrap_hi_margin 0;
          first_chunk_size = wrap_hi_margin - offset
      in if len \<ge> wrap_hi_margin - wrap_lo_margin then (False, data, f, next_offset)
         else
           (case (if len \<le> first_chunk_size
                  then (case lseek_set f offset of (r1, f1) \<Rightarrow>
                        case io_function do_write f1 data (unat len) of (r2, d2, f2) \<Rightarrow>
                          (r1 \<and> r2, d2, f2))
                  else (case lseek_set f offset of (r1, f1) \<Rightarrow>
                        case io_function do_write f1 data (unat first_chunk_size) of (r2, d2, f2) \<Rightarrow>
                        case lseek_set f2 wrap_lo_margin of (r3, f3) \<Rightarrow>
                        case io_function do_write f3 (drop (unat first_chunk_size) d2)
                               (unat (len - first_chunk_size)) of (r4, d4, f4) \<Rightarrow>
                          (r1 \<and> r2 \<and> r3 \<and> r4, take (unat first_chunk_size) d2 @ d4, f4)))
            of (result, data', f') \<Rightarrow>
              (result, data', f', store_out next_offset (offset_roll offset wrap_hi_margin len))))"

subsection \<open>The queue handle and the two on-disk records\<close>

record T_PERSIMQ =
  fd :: "32 word"
  append_ptr :: off_t
  extract_ptr :: off_t
  count_bytes :: off_t
  count_messages :: off_t
  file_size :: off_t

text \<open>The fields of \<^verbatim>\<open>TFileHeader\<close> and \<^verbatim>\<open>TMessageHeader\<close> carry a prefix, since a field
  name is a constant of the theory and the handle has the unprefixed ones.\<close>

record TFileHeader =
  fh_ID :: "byte list"
  fh_append_ptr :: "64 word"
  fh_extract_ptr :: "64 word"
  fh_count_bytes :: "64 word"
  fh_count_messages :: "64 word"
  fh_file_size :: "64 word"
  fh_crc :: byte

record TMessageHeader =
  mh_ID :: "byte list"
  message_crc :: byte
  message_size :: "32 word"

text \<open>Little-endian layout of an unsigned integer in \<open>n\<close> bytes, and back.\<close>

primrec le_bytes :: "nat \<Rightarrow> 'a::len word \<Rightarrow> byte list" where
  "le_bytes 0 w = []"
| "le_bytes (Suc n) w = ucast w # le_bytes n (drop_bit 8 w)"

primrec le_word :: "byte list \<Rightarrow> 'a::len word" where
  "le_word [] = 0"
| "le_word (b # bs) = ucast b OR push_bit 8 (le_word bs)"

text \<open>\<^verbatim>\<open>"lPmQ"\<close> in a \<^verbatim>\<open>char[4]\<close> and \<^verbatim>\<open>"PMQ"\<close> in a \<^verbatim>\<open>char[3]\<close>: the characters without the
  terminator.\<close>

definition file_magic :: "byte list" where
  "file_magic = [0x6C, 0x50, 0x6D, 0x51]"

definition message_magic :: "byte list" where
  "message_magic = [0x50, 0x4D, 0x51]"

definition TFileHeader_bytes :: "TFileHeader \<Rightarrow> byte list" where
  "TFileHeader_bytes h =
     take 4 (fh_ID h) @ le_bytes 8 (fh_append_ptr h) @ le_bytes 8 (fh_extract_ptr h)
       @ le_bytes 8 (fh_count_bytes h) @ le_bytes 8 (fh_count_messages h)
       @ le_bytes 8 (fh_file_size h) @ [fh_crc h]"

definition TFileHeader_of :: "byte list \<Rightarrow> TFileHeader" where
  "TFileHeader_of bs =
     \<lparr>fh_ID = take 4 bs,
      fh_append_ptr = le_word (take 8 (drop 4 bs)),
      fh_extract_ptr = le_word (take 8 (drop 12 bs)),
      fh_count_bytes = le_word (take 8 (drop 20 bs)),
      fh_count_messages = le_word (take 8 (drop 28 bs)),
      fh_file_size = le_word (take 8 (drop 36 bs)),
      fh_crc = le_word (take 1 (drop 44 bs))\<rparr>"

definition TMessageHeader_bytes :: "TMessageHeader \<Rightarrow> byte list" where
  "TMessageHeader_bytes h = take 3 (mh_ID h) @ [message_crc h] @ le_bytes 4 (message_size h)"

definition TMessageHeader_of :: "byte list \<Rightarrow> TMessageHeader" where
  "TMessageHeader_of bs =
     \<lparr>mh_ID = take 3 bs,
      message_crc = le_word (take 1 (drop 3 bs)),
      message_size = le_word (take 4 (drop 4 bs))\<rparr>"

subsection \<open>Queries\<close>

definition PERSIMQ_is_open :: "T_PERSIMQ \<Rightarrow> bool" where
  "PERSIMQ_is_open mq = (fd mq \<noteq> 0)"

definition PERSIMQ_is_empty :: "T_PERSIMQ \<Rightarrow> bool" where
  "PERSIMQ_is_empty mq = (count_bytes mq = 0)"

definition PERSIMQ_messages_available :: "T_PERSIMQ \<Rightarrow> off_t" where
  "PERSIMQ_messages_available mq = count_messages mq"

definition PERSIMQ_bytes_available :: "T_PERSIMQ \<Rightarrow> size_t" where
  "PERSIMQ_bytes_available mq = count_bytes mq - sizeof_TMessageHeader * count_messages mq"

definition PERSIMQ_bytes_free :: "T_PERSIMQ \<Rightarrow> size_t" where
  "PERSIMQ_bytes_free mq = file_size mq - (count_bytes mq + sizeof_TFileHeader)"

subsection \<open>Open, sync, close, drop, clear\<close>

definition ftruncate_file :: "qfile \<Rightarrow> off_t \<Rightarrow> bool \<times> qfile" where
  "ftruncate_file f len =
     (if len <s 0 then (False, f)
      else (True, f\<lparr>content := take (unat len) (content f)
                                 @ replicate (unat len - length (content f)) 0\<rparr>))"

text \<open>
  \<^verbatim>\<open>PERSIMQ_open\<close>. \<open>f\<close> is the file at the path (no bytes when it is created by the
  call), \<open>os_fd\<close> the value \<^verbatim>\<open>open(2)\<close> returns (-1 for a failure); \<^verbatim>\<open>umask\<close> and
  \<^verbatim>\<open>flock\<close> succeed. The size test compares the \<^verbatim>\<open>off_t\<close> with a \<^verbatim>\<open>size_t\<close>, so it is
  unsigned; a negative size passes it and fails in \<^verbatim>\<open>ftruncate\<close>, where the function
  returns with the descriptor still stored in the handle.
\<close>

definition PERSIMQ_open :: "T_PERSIMQ \<Rightarrow> qfile \<Rightarrow> 32 word \<Rightarrow> off_t \<Rightarrow> bool \<times> T_PERSIMQ \<times> qfile" where
  "PERSIMQ_open mq f os_fd mqfile_size =
     (if mqfile_size \<le> sizeof_TFileHeader + sizeof_TMessageHeader + 1 then (False, mq, f)
      else if os_fd = - 1 then (False, mq\<lparr>fd := 0\<rparr>, f)
      else
        (let mq1 = mq\<lparr>fd := os_fd\<rparr> in
         case ftruncate_file (f\<lparr>fpos := 0\<rparr>) mqfile_size of (t_ok, f1) \<Rightarrow>
         if \<not> t_ok then (False, mq1, f1)
         else case lseek_set f1 0 of (s_ok, f2) \<Rightarrow>
         if \<not> s_ok then (False, mq1\<lparr>fd := 0\<rparr>, f2)
         else case multiread f2 (unat sizeof_TFileHeader) of (r_ok, bs, f3) \<Rightarrow>
         if \<not> r_ok then (False, mq1\<lparr>fd := 0\<rparr>, f3)
         else
           (let header = TFileHeader_of bs;
                crc = eval_crc8 (take (unat sizeof_TFileHeader - 1) bs);
                mq2 = (if fh_ID header = file_magic \<and> crc = fh_crc header
                          \<and> mqfile_size = fh_file_size header
                       then mq1\<lparr>append_ptr := fh_append_ptr header,
                                extract_ptr := fh_extract_ptr header,
                                count_bytes := fh_count_bytes header,
                                count_messages := fh_count_messages header\<rparr>
                       else mq1\<lparr>append_ptr := sizeof_TFileHeader,
                                extract_ptr := sizeof_TFileHeader,
                                count_bytes := 0,
                                count_messages := 0\<rparr>)
            in (True, mq2\<lparr>file_size := mqfile_size\<rparr>, f3))))"

text \<open>\<^verbatim>\<open>PERSIMQ_sync\<close>; \<^verbatim>\<open>fsync\<close> succeeds. The handle is only read.\<close>

definition PERSIMQ_sync :: "T_PERSIMQ \<Rightarrow> qfile \<Rightarrow> bool \<times> qfile" where
  "PERSIMQ_sync mq f =
     (if fd mq = 0 then (False, f)
      else case lseek_set f 0 of (r1, f1) \<Rightarrow>
        (let header0 = \<lparr>fh_ID = file_magic,
                        fh_append_ptr = append_ptr mq,
                        fh_extract_ptr = extract_ptr mq,
                        fh_count_bytes = count_bytes mq,
                        fh_count_messages = count_messages mq,
                        fh_file_size = file_size mq,
                        fh_crc = 0\<rparr>;
             header = header0\<lparr>fh_crc :=
                        eval_crc8 (take (unat sizeof_TFileHeader - 1) (TFileHeader_bytes header0))\<rparr>
         in case multiwrite f1 (TFileHeader_bytes header) of (r2, f2) \<Rightarrow> (r1 \<and> r2, f2)))"

text \<open>\<^verbatim>\<open>PERSIMQ_close\<close> and \<^verbatim>\<open>PERSIMQ_drop\<close>; \<^verbatim>\<open>close(2)\<close> succeeds. Neither touches the
  handle: its \<^verbatim>\<open>fd\<close> field keeps the descriptor.\<close>

definition PERSIMQ_close :: "T_PERSIMQ \<Rightarrow> qfile \<Rightarrow> bool \<times> qfile" where
  "PERSIMQ_close mq f =
     (if fd mq = 0 then (True, f)
      else case PERSIMQ_sync mq f of (r, f1) \<Rightarrow> (r \<and> True, f1))"

definition PERSIMQ_drop :: "T_PERSIMQ \<Rightarrow> qfile \<Rightarrow> bool \<times> qfile" where
  "PERSIMQ_drop mq f = (if fd mq = 0 then (True, f) else (True, f))"

definition PERSIMQ_clear :: "T_PERSIMQ \<Rightarrow> qfile \<Rightarrow> bool \<times> T_PERSIMQ \<times> qfile" where
  "PERSIMQ_clear mq f =
     (if fd mq = 0 then (False, mq, f)
      else
        (let mq1 = mq\<lparr>append_ptr := sizeof_TFileHeader,
                       extract_ptr := sizeof_TFileHeader,
                       count_bytes := 0,
                       count_messages := 0\<rparr>
         in case PERSIMQ_sync mq1 f of (r, f1) \<Rightarrow> (r, mq1, f1)))"

subsection \<open>Push\<close>

text \<open>\<^verbatim>\<open>message\<close> is the buffer at the pointer, \<^verbatim>\<open>message_size\<close> the \<^verbatim>\<open>size_t\<close> passed
  with it. The length field of the record header is a \<^verbatim>\<open>uint32_t\<close>: the size is truncated.\<close>

definition PERSIMQ_push :: "T_PERSIMQ \<Rightarrow> qfile \<Rightarrow> byte list \<Rightarrow> size_t \<Rightarrow> bool \<times> T_PERSIMQ \<times> qfile" where
  "PERSIMQ_push mq f message msg_size =
     (if fd mq = 0 then (False, mq, f)
      else if PERSIMQ_bytes_free mq < sizeof_TMessageHeader + msg_size then (False, mq, f)
      else
        (let header = \<lparr>mh_ID = message_magic,
                       message_crc = eval_crc8 (take (unat msg_size) message),
                       message_size = ucast msg_size\<rparr>
         in case wrapped_io f (TMessageHeader_bytes header) sizeof_TMessageHeader
                   (append_ptr mq) (file_size mq) None True of (ok1, d1, f1, n1) \<Rightarrow>
            if \<not> ok1 then (False, mq\<lparr>fd := 0\<rparr>, f1)
            else case wrapped_io f1 message msg_size
                        (offset_roll (append_ptr mq) (file_size mq) sizeof_TMessageHeader)
                        (file_size mq) (Some (append_ptr mq)) True of (ok2, d2, f2, n2) \<Rightarrow>
              (let mq1 = (case n2 of None \<Rightarrow> mq | Some a \<Rightarrow> mq\<lparr>append_ptr := a\<rparr>)
               in if \<not> ok2 then (False, mq1\<lparr>fd := 0\<rparr>, f2)
                  else (True,
                        mq1\<lparr>count_messages := count_messages mq1 + 1,
                            count_bytes := count_bytes mq1 + (sizeof_TMessageHeader + msg_size)\<rparr>,
                        f2))))"

subsection \<open>Reading a record header; pop and pop_n\<close>

text \<open>\<^verbatim>\<open>PERSIMQ_read_message_header\<close>: \<open>None\<close> is the result \<^verbatim>\<open>false\<close>, \<open>Some h\<close> is \<^verbatim>\<open>true\<close>
  with \<open>h\<close> stored through the pointer. All three callers pass the address of a local,
  so the null-pointer test never fires; the local starts as the empty buffer.\<close>

definition PERSIMQ_read_message_header ::
  "T_PERSIMQ \<Rightarrow> qfile \<Rightarrow> off_t \<Rightarrow> TMessageHeader option \<times> T_PERSIMQ \<times> qfile" where
  "PERSIMQ_read_message_header mq f offset0 =
     (if fd mq = 0 then (None, mq, f)
      else
        (let offset = offset_roll offset0 (file_size mq) 0
         in case wrapped_io f [] sizeof_TMessageHeader offset (file_size mq) None False
              of (ok, bs, f1, n1) \<Rightarrow>
            if \<not> ok then (None, mq\<lparr>fd := 0\<rparr>, f1)
            else (let header = TMessageHeader_of bs
                  in if mh_ID header \<noteq> message_magic then (None, mq\<lparr>fd := 0\<rparr>, f1)
                     else (Some header, mq, f1))))"

definition PERSIMQ_pop :: "T_PERSIMQ \<Rightarrow> qfile \<Rightarrow> bool \<times> T_PERSIMQ \<times> qfile" where
  "PERSIMQ_pop mq f =
     (if fd mq = 0 then (False, mq, f)
      else if PERSIMQ_messages_available mq = 0 then (False, mq, f)
      else case PERSIMQ_read_message_header mq f (extract_ptr mq) of
             (None, mq1, f1) \<Rightarrow> (False, mq1, f1)
           | (Some header, mq1, f1) \<Rightarrow>
               (True,
                mq1\<lparr>extract_ptr := offset_roll (extract_ptr mq1) (file_size mq1)
                                      (ucast (message_size header) + sizeof_TMessageHeader),
                    count_bytes := count_bytes mq1
                                     - (ucast (message_size header) + sizeof_TMessageHeader),
                    count_messages := count_messages mq1 - 1\<rparr>,
                f1))"

text \<open>The counting loop of \<^verbatim>\<open>PERSIMQ_pop_n\<close>: \<open>n\<close> calls of \<^verbatim>\<open>PERSIMQ_pop\<close>, the results
  and-ed together. (The loop variable is an \<^verbatim>\<open>int\<close>; the model covers counts it can hold.)\<close>

primrec pop_loop :: "nat \<Rightarrow> bool \<times> T_PERSIMQ \<times> qfile \<Rightarrow> bool \<times> T_PERSIMQ \<times> qfile" where
  "pop_loop 0 s = s"
| "pop_loop (Suc n) s =
     (case s of (result, mq, f) \<Rightarrow>
        case PERSIMQ_pop mq f of (r, mq1, f1) \<Rightarrow> pop_loop n (result \<and> r, mq1, f1))"

definition PERSIMQ_pop_n :: "T_PERSIMQ \<Rightarrow> qfile \<Rightarrow> 64 word \<Rightarrow> bool \<times> T_PERSIMQ \<times> qfile" where
  "PERSIMQ_pop_n mq f pop_count =
     (if pop_count \<ge> count_messages mq
      then (True, mq\<lparr>extract_ptr := append_ptr mq, count_bytes := 0, count_messages := 0\<rparr>, f)
      else pop_loop (unat pop_count) (True, mq, f))"

subsection \<open>Get and get_all\<close>

definition PERSIMQ_read_message_data ::
  "T_PERSIMQ \<Rightarrow> qfile \<Rightarrow> byte list \<Rightarrow> size_t \<Rightarrow> size_t \<Rightarrow> byte \<Rightarrow> off_t
     \<Rightarrow> bool \<times> T_PERSIMQ \<times> qfile \<times> byte list" where
  "PERSIMQ_read_message_data mq f buffer buffer_size msg_size msg_crc ext_ptr =
     (case wrapped_io f buffer msg_size ext_ptr (file_size mq) None False of (ok, buffer1, f1, n1) \<Rightarrow>
        if \<not> ok then (False, mq\<lparr>fd := 0\<rparr>, f1, buffer1)
        else if eval_crc8 (take (unat msg_size) buffer1) \<noteq> msg_crc
             then (False, mq\<lparr>fd := 0\<rparr>, f1, buffer1)
             else (True, mq, f1, buffer1))"

text \<open>\<^verbatim>\<open>PERSIMQ_get\<close>: the result, the handle, the file, the caller's buffer and the cell
  behind \<^verbatim>\<open>message_size\<close>.\<close>

definition PERSIMQ_get ::
  "T_PERSIMQ \<Rightarrow> qfile \<Rightarrow> byte list \<Rightarrow> size_t \<Rightarrow> size_t option
     \<Rightarrow> bool \<times> T_PERSIMQ \<times> qfile \<times> byte list \<times> size_t option" where
  "PERSIMQ_get mq f buffer buffer_size msg_size_out =
     (if fd mq = 0 then (False, mq, f, buffer, msg_size_out)
      else if PERSIMQ_messages_available mq = 0 then (False, mq, f, buffer, msg_size_out)
      else case PERSIMQ_read_message_header mq f (extract_ptr mq) of
             (None, mq1, f1) \<Rightarrow> (False, mq1, f1, buffer, msg_size_out)
           | (Some header, mq1, f1) \<Rightarrow>
               (let out1 = store_out msg_size_out (ucast (message_size header))
                in if ucast (message_size header) > buffer_size
                   then (False, mq1, f1, buffer, out1)
                   else case PERSIMQ_read_message_data mq1 f1 buffer buffer_size
                               (ucast (message_size header)) (message_crc header)
                               (extract_ptr mq1 + sizeof_TMessageHeader)
                          of (r, mq2, f2, buffer2) \<Rightarrow> (r, mq2, f2, buffer2, out1)))"

text \<open>
  The loop of \<^verbatim>\<open>PERSIMQ_get_all\<close>. \<open>filled\<close> is the part of the caller's buffer before the
  moving \<^verbatim>\<open>buffer\<close> pointer, \<open>buffer\<close> the part from it on. \<open>Inl\<close> is the
  \<^verbatim>\<open>return false\<close> inside the loop, which skips the stores through the out-parameters;
  \<open>Inr\<close> is leaving the loop, by its condition or by a \<^verbatim>\<open>break\<close>, with \<^verbatim>\<open>result\<close>, the
  whole buffer, \<^verbatim>\<open>buffer_size\<close> and \<^verbatim>\<open>message_idx\<close>.
\<close>

function get_all_loop ::
  "T_PERSIMQ \<Rightarrow> qfile \<Rightarrow> byte list \<Rightarrow> byte list \<Rightarrow> size_t \<Rightarrow> 64 word \<Rightarrow> 64 word \<Rightarrow> off_t
     \<Rightarrow> (T_PERSIMQ \<times> qfile \<times> byte list)
         + (bool \<times> T_PERSIMQ \<times> qfile \<times> byte list \<times> size_t \<times> 64 word)" where
  "get_all_loop mq f filled buffer buffer_size max_messages message_idx current_ptr =
     (if message_idx < count_messages mq \<and> message_idx < max_messages
      then
        (case PERSIMQ_read_message_header mq f current_ptr of
           (None, mq1, f1) \<Rightarrow> Inl (mq1, f1, filled @ buffer)
         | (Some header, mq1, f1) \<Rightarrow>
             if ucast (message_size header) > buffer_size
             then Inr (True, mq1, f1, filled @ buffer, buffer_size, message_idx + 1)
             else case PERSIMQ_read_message_data mq1 f1 buffer buffer_size
                         (ucast (message_size header)) (message_crc header)
                         (current_ptr + sizeof_TMessageHeader)
                    of (r, mq2, f2, buffer2) \<Rightarrow>
                  if \<not> r then Inr (False, mq2, f2, filled @ buffer2, buffer_size, message_idx + 1)
                  else get_all_loop mq2 f2
                         (filled @ take (unat (message_size header)) buffer2)
                         (drop (unat (message_size header)) buffer2)
                         (buffer_size - ucast (message_size header))
                         max_messages (message_idx + 1)
                         (offset_roll current_ptr (file_size mq2)
                            (ucast (message_size header) + sizeof_TMessageHeader)))
      else Inr (True, mq, f, filled @ buffer, buffer_size, message_idx))"
  by pat_completeness auto
termination
  apply (relation "measure (\<lambda>(mq, f, filled, buffer, buffer_size, max_messages, message_idx, current_ptr).
                            unat max_messages - unat message_idx)")
   apply simp
  apply clarsimp
  apply unat_arith
  done

declare get_all_loop.simps [simp del]

definition PERSIMQ_get_all ::
  "T_PERSIMQ \<Rightarrow> qfile \<Rightarrow> byte list \<Rightarrow> size_t \<Rightarrow> 64 word \<Rightarrow> size_t option \<Rightarrow> 64 word option
     \<Rightarrow> bool \<times> T_PERSIMQ \<times> qfile \<times> byte list \<times> size_t option \<times> 64 word option" where
  "PERSIMQ_get_all mq f buffer buffer_size max_messages total_size messages_read =
     (if fd mq = 0 then (False, mq, f, buffer, total_size, messages_read)
      else if PERSIMQ_messages_available mq = 0
           then (False, mq, f, buffer, total_size, messages_read)
      else case get_all_loop mq f [] buffer buffer_size max_messages 0 (extract_ptr mq) of
             Inl (mq1, f1, buffer1) \<Rightarrow> (False, mq1, f1, buffer1, total_size, messages_read)
           | Inr (result, mq1, f1, buffer1, buffer_size1, message_idx) \<Rightarrow>
               (result, mq1, f1, buffer1,
                store_out total_size (buffer_size - buffer_size1),
                store_out messages_read message_idx))"

subsection \<open>The circular data region, stated without chunks\<close>

text \<open>
  The transfer the specification describes: byte \<open>i\<close> of the span lives at the position
  \<open>i\<close> steps after the offset, counted around the region \<open>[lo, hi)\<close>. These are written
  from the specification's words, for comparison with \<^verbatim>\<open>wrapped_io\<close>; \<open>write_at\<close> is one
  contiguous store.
\<close>

definition write_at :: "'a list \<Rightarrow> nat \<Rightarrow> 'a list \<Rightarrow> 'a list" where
  "write_at c pos bs = take pos c @ bs @ drop (pos + length bs) c"

definition circ_pos :: "nat \<Rightarrow> nat \<Rightarrow> nat \<Rightarrow> nat \<Rightarrow> nat" where
  "circ_pos lo hi off i = lo + (off - lo + i) mod (hi - lo)"

definition naive_write :: "nat \<Rightarrow> nat \<Rightarrow> 'a list \<Rightarrow> nat \<Rightarrow> 'a list \<Rightarrow> 'a list" where
  "naive_write lo hi c off bs = fold (\<lambda>i c'. c'[circ_pos lo hi off i := bs ! i]) [0..<length bs] c"

definition naive_read :: "nat \<Rightarrow> nat \<Rightarrow> 'a list \<Rightarrow> nat \<Rightarrow> nat \<Rightarrow> 'a list" where
  "naive_read lo hi c off n = map (\<lambda>i. c ! circ_pos lo hi off i) [0..<n]"

subsection \<open>Concrete inputs\<close>

text \<open>The 17 bytes of \<^verbatim>\<open>"Test message !!!"\<close> with its terminator, as \<^verbatim>\<open>examples/example.c\<close>
  pushes them.\<close>

definition test_message :: "byte list" where
  "test_message = [0x54, 0x65, 0x73, 0x74, 0x20, 0x6D, 0x65, 0x73, 0x73, 0x61, 0x67, 0x65,
                   0x20, 0x21, 0x21, 0x21, 0x00]"

text \<open>A handle on an 80-byte file that holds one record of 8 + 17 bytes at the start of the
  data region, and the same handle after the descriptor was given up.\<close>

definition one_message_handle :: T_PERSIMQ where
  "one_message_handle =
     \<lparr>fd = 3, append_ptr = 70, extract_ptr = 45, count_bytes = 25, count_messages = 1,
      file_size = 80\<rparr>"

definition closed_handle :: T_PERSIMQ where
  "closed_handle = one_message_handle\<lparr>fd := 0\<rparr>"

definition one_message_file :: qfile where
  "one_message_file =
     \<lparr>content = replicate 45 0 @ TMessageHeader_bytes
                  \<lparr>mh_ID = message_magic, message_crc = eval_crc8 test_message, message_size = 17\<rparr>
                @ test_message @ replicate 10 0,
      fpos = 0\<rparr>"

text \<open>The handle \<^verbatim>\<open>PERSIMQ_open\<close> fills in for a file without a valid header (descriptor 3),
  and the zero-filled file it leaves behind.\<close>

definition empty_handle :: "off_t \<Rightarrow> T_PERSIMQ" where
  "empty_handle n =
     \<lparr>fd = 3, append_ptr = 45, extract_ptr = 45, count_bytes = 0, count_messages = 0,
      file_size = n\<rparr>"

definition blank_file :: "nat \<Rightarrow> qfile" where
  "blank_file n = \<lparr>content = replicate n 0, fpos = 45\<rparr>"

text \<open>A 50-byte file that starts with a header in good order recording the size 50.\<close>

definition small_header_file :: qfile where
  "small_header_file =
     \<lparr>content = TFileHeader_bytes
                  \<lparr>fh_ID = file_magic, fh_append_ptr = 45, fh_extract_ptr = 45, fh_count_bytes = 0,
                   fh_count_messages = 0, fh_file_size = 50, fh_crc = 0x38\<rparr> @ replicate 5 0,
      fpos = 0\<rparr>"

text \<open>The states the example program goes through on a 70-byte file: the record it pushes,
  the handle after the push, and the header \<^verbatim>\<open>PERSIMQ_close\<close> writes.\<close>

definition record_bytes :: "byte list" where
  "record_bytes =
     TMessageHeader_bytes
       \<lparr>mh_ID = message_magic, message_crc = eval_crc8 test_message, message_size = 17\<rparr>
     @ test_message"

definition full_handle :: T_PERSIMQ where
  "full_handle =
     \<lparr>fd = 3, append_ptr = 45, extract_ptr = 45, count_bytes = 25, count_messages = 1,
      file_size = 70\<rparr>"

definition full_header :: "byte list" where
  "full_header =
     TFileHeader_bytes
       \<lparr>fh_ID = file_magic, fh_append_ptr = 45, fh_extract_ptr = 45, fh_count_bytes = 25,
        fh_count_messages = 1, fh_file_size = 70, fh_crc = 0x2C\<rparr>"

text \<open>A handle whose fields are all unlike the ones any file used here records.\<close>

definition stale_handle :: T_PERSIMQ where
  "stale_handle =
     \<lparr>fd = 7, append_ptr = 1, extract_ptr = 2, count_bytes = 3, count_messages = 4,
      file_size = 5\<rparr>"

section \<open>Properties\<close>

subsection \<open>Sizes\<close>

lemma unat_sizeof_TMessageHeader: "unat sizeof_TMessageHeader = 8"
  by (simp add: sizeof_TMessageHeader_def)

lemma unat_sizeof_TFileHeader: "unat sizeof_TFileHeader = 45"
  by (simp add: sizeof_TFileHeader_def)

subsection \<open>Push on a full queue\<close>

text \<open>
  C2. Whenever the free space reported by \<^verbatim>\<open>PERSIMQ_bytes_free\<close> is less than the size of a
  record header plus the payload length, \<^verbatim>\<open>PERSIMQ_push\<close> on an open handle returns
  \<^verbatim>\<open>false\<close> and gives back the handle and the file exactly as they were: nothing of the
  record has been written. The payload is a C object of \<^verbatim>\<open>message_size\<close> bytes, so its
  length is below \<open>2 ^ 63\<close>.
\<close>

theorem push_without_space_fails:
  assumes "fd mq \<noteq> 0"
    and "length message = unat msg_size"
    and "length message < 2 ^ 63"
    and "unat (PERSIMQ_bytes_free mq) < unat sizeof_TMessageHeader + length message"
  shows "PERSIMQ_push mq f message msg_size = (False, mq, f)"
proof -
  have "unat (sizeof_TMessageHeader + msg_size) = unat sizeof_TMessageHeader + unat msg_size"
    using assms(2,3) by (simp add: unat_word_ariths sizeof_TMessageHeader_def)
  then have "PERSIMQ_bytes_free mq < sizeof_TMessageHeader + msg_size"
    using assms(2,4) by (simp add: word_less_nat_alt)
  then show ?thesis
    using assms(1) by (simp add: PERSIMQ_push_def)
qed

theorem push_without_space_fails_witness:
  "fd (empty_handle 64) \<noteq> 0
   \<and> length test_message = unat (17 :: size_t)
   \<and> length test_message < 2 ^ 63
   \<and> unat (PERSIMQ_bytes_free (empty_handle 64)) < unat sizeof_TMessageHeader + length test_message
   \<and> PERSIMQ_push (empty_handle 64) (blank_file 64) test_message 17
        = (False, empty_handle 64, blank_file 64)"
proof -
  have h1: "fd (empty_handle 64) \<noteq> 0"
    by (simp add: empty_handle_def)
  have h2: "length test_message = unat (17 :: size_t)"
    by (simp add: test_message_def)
  have h3: "length test_message < 2 ^ 63"
    by (simp add: test_message_def)
  have h4: "unat (PERSIMQ_bytes_free (empty_handle 64))
              < unat sizeof_TMessageHeader + length test_message"
    by (simp add: empty_handle_def PERSIMQ_bytes_free_def sizeof_TFileHeader_def
          sizeof_TMessageHeader_def test_message_def)
  show ?thesis
    using h1 h2 h3 h4 push_without_space_fails [OF h1 h2 h3 h4, of "blank_file 64"]
    by blast
qed

subsection \<open>The fast path of pop_n\<close>

text \<open>
  C4, as stated, fails: after \<^verbatim>\<open>PERSIMQ_pop_n\<close> with a count at or above the number of
  live messages the two pointers are not where \<^verbatim>\<open>PERSIMQ_clear\<close> puts them. On the handle
  with one message, \<^verbatim>\<open>pop_n(10)\<close> leaves both pointers at 70, \<^verbatim>\<open>clear\<close> at 45.
\<close>

theorem pop_n_pointers_differ_from_clear:
  "fd one_message_handle \<noteq> 0
   \<and> count_messages one_message_handle \<le> 10
   \<and> append_ptr (fst (snd (PERSIMQ_pop_n one_message_handle one_message_file 10))) = 70
   \<and> extract_ptr (fst (snd (PERSIMQ_pop_n one_message_handle one_message_file 10))) = 70
   \<and> append_ptr (fst (snd (PERSIMQ_clear one_message_handle one_message_file))) = 45
   \<and> extract_ptr (fst (snd (PERSIMQ_clear one_message_handle one_message_file))) = 45"
  by (simp add: one_message_handle_def PERSIMQ_pop_n_def PERSIMQ_clear_def
        sizeof_TFileHeader_def split_def Let_def)

text \<open>
  C4, amended. For every open queue and every \<open>n\<close> at or above the live message count,
  \<^verbatim>\<open>PERSIMQ_pop_n\<close> succeeds without touching the file and leaves both counts zero and
  the extract pointer equal to the append pointer, which keeps its value; the four queries
  then answer as they do on the handle \<^verbatim>\<open>PERSIMQ_clear\<close> produces.
\<close>

theorem pop_n_over_request:
  assumes "fd mq \<noteq> 0" and "count_messages mq \<le> n"
  shows "PERSIMQ_pop_n mq f n
           = (True, mq\<lparr>extract_ptr := append_ptr mq, count_bytes := 0, count_messages := 0\<rparr>, f)
         \<and> PERSIMQ_is_empty (fst (snd (PERSIMQ_pop_n mq f n)))
         \<and> PERSIMQ_is_empty (fst (snd (PERSIMQ_clear mq f)))
         \<and> PERSIMQ_messages_available (fst (snd (PERSIMQ_pop_n mq f n)))
             = PERSIMQ_messages_available (fst (snd (PERSIMQ_clear mq f)))
         \<and> PERSIMQ_bytes_available (fst (snd (PERSIMQ_pop_n mq f n)))
             = PERSIMQ_bytes_available (fst (snd (PERSIMQ_clear mq f)))
         \<and> PERSIMQ_bytes_free (fst (snd (PERSIMQ_pop_n mq f n)))
             = PERSIMQ_bytes_free (fst (snd (PERSIMQ_clear mq f)))
         \<and> append_ptr (fst (snd (PERSIMQ_clear mq f))) = extract_ptr (fst (snd (PERSIMQ_clear mq f)))"
  using assms
  by (simp add: PERSIMQ_pop_n_def PERSIMQ_clear_def split_def Let_def PERSIMQ_is_empty_def
        PERSIMQ_messages_available_def PERSIMQ_bytes_available_def PERSIMQ_bytes_free_def)

theorem pop_n_over_request_witness:
  "fd one_message_handle \<noteq> 0
   \<and> count_messages one_message_handle \<le> 10
   \<and> PERSIMQ_pop_n one_message_handle one_message_file 10
       = (True, one_message_handle\<lparr>extract_ptr := 70, count_bytes := 0, count_messages := 0\<rparr>,
          one_message_file)"
proof -
  have h1: "fd one_message_handle \<noteq> 0"
    by (simp add: one_message_handle_def)
  have h2: "count_messages one_message_handle \<le> 10"
    by (simp add: one_message_handle_def)
  have "append_ptr one_message_handle = 70"
    by (simp add: one_message_handle_def)
  then show ?thesis
    using h1 h2 pop_n_over_request [OF h1 h2, of one_message_file] by simp
qed

subsection \<open>Operations on a closed handle\<close>

text \<open>Push, pop, clear and sync test the descriptor first and leave everything alone.\<close>

lemma closed_handle_is_refused:
  assumes "fd mq = 0"
  shows "PERSIMQ_push mq f message msg_size = (False, mq, f)"
    and "PERSIMQ_pop mq f = (False, mq, f)"
    and "PERSIMQ_clear mq f = (False, mq, f)"
    and "PERSIMQ_sync mq f = (False, f)"
  using assms
  by (simp_all add: PERSIMQ_push_def PERSIMQ_pop_def PERSIMQ_clear_def PERSIMQ_sync_def)

text \<open>
  C5 asks the same of \<^verbatim>\<open>PERSIMQ_pop_n\<close>, which has no such test. On a handle whose
  descriptor is 0 and which still counts one message, \<^verbatim>\<open>pop_n(1)\<close> returns \<^verbatim>\<open>true\<close> and
  changes the extract pointer and both counts.
\<close>

theorem pop_n_on_closed_handle:
  "fd closed_handle = 0
   \<and> PERSIMQ_pop_n closed_handle one_message_file 1
       = (True,
          \<lparr>fd = 0, append_ptr = 70, extract_ptr = 70, count_bytes = 0, count_messages = 0,
           file_size = 80\<rparr>,
          one_message_file)
   \<and> fst (snd (PERSIMQ_pop_n closed_handle one_message_file 1)) \<noteq> closed_handle"
  by (simp add: closed_handle_def one_message_handle_def PERSIMQ_pop_n_def)

subsection \<open>The address mapper\<close>

text \<open>A 64-bit word read as an \<^verbatim>\<open>off_t\<close>.\<close>

lemma sint64: "sint (x::64 word) = (if uint x < 2^63 then uint x else uint x - 2^64)"
proof (cases "uint x < 2^63")
  case True
  have "(- (2 ^ 63) :: int) \<le> 0"
    by simp
  then have "- (2 ^ 63) \<le> uint x"
    using uint_nonnegative [of x] by (rule order_trans)
  then have "signed_take_bit 63 (uint x) = uint x"
    using True by (rule signed_take_bit_int_eq_self)
  then show ?thesis using True by (simp add: sint_uint)
next
  case False
  have lt: "uint x < 2^64" using uint_lt2p [of x] by simp
  have "(uint x + 2^63) mod 2^64 = (uint x + 2^63 - 2^64) mod 2^64"
    by (metis minus_mod_self2)
  also have "\<dots> = uint x + 2^63 - 2^64"
    using False lt by (intro mod_pos_pos_trivial) simp_all
  finally show ?thesis
    using False by (simp add: sint_uint signed_take_bit_eq_take_bit_shift take_bit_eq_mod)
qed

lemma sless_lo_margin: "wrap_lo_margin <s hi \<longleftrightarrow> 45 < uint hi \<and> uint hi < 2^63"
  using uint_lt2p [of hi]
  by (auto simp: word_sless_alt sint64 wrap_lo_margin_def sizeof_TFileHeader_def split: if_splits)

lemma uint_offset_roll:
  assumes "wrap_lo_margin <s hi"
  shows "45 \<le> uint (offset_roll c hi inc) \<and> uint (offset_roll c hi inc) < uint hi"
proof -
  from assms have hi: "45 < uint hi" "uint hi < 2^63" by (simp_all add: sless_lo_margin)
  define m where "m = hi - 45"
  have um: "uint m = uint hi - 45"
    unfolding m_def using hi by uint_arith
  define x where "x = (if c <s wrap_lo_margin then wrap_lo_margin else c - wrap_lo_margin) + inc"
  have r: "offset_roll c hi inc = x mod m + 45"
    by (simp add: offset_roll_def x_def m_def wrap_lo_margin_def sizeof_TFileHeader_def Let_def)
  have "uint (x mod m) < uint m"
    using um hi by (simp add: uint_mod_distrib)
  then have "uint (x mod m + 45) = uint (x mod m) + 45"
    using um hi by uint_arith
  then show ?thesis using r um \<open>uint (x mod m) < uint m\<close> by simp
qed

text \<open>
  C8. Whenever the end of the data region lies above its start, \<^verbatim>\<open>offset_roll\<close> returns an
  offset inside the region, \<open>wrap_lo_margin \<le> r < wrap_hi_margin\<close> as \<^verbatim>\<open>off_t\<close> values,
  for every current offset and every increment (the non-negative ones among them).
\<close>

theorem offset_roll_in_region:
  assumes "wrap_lo_margin <s wrap_hi_margin"
  shows "wrap_lo_margin \<le>s offset_roll current_offset wrap_hi_margin increment
         \<and> offset_roll current_offset wrap_hi_margin increment <s wrap_hi_margin"
proof -
  let ?r = "offset_roll current_offset wrap_hi_margin increment"
  from assms have hi: "45 < uint wrap_hi_margin" "uint wrap_hi_margin < 2^63"
    by (simp_all add: sless_lo_margin)
  have r: "45 \<le> uint ?r" "uint ?r < uint wrap_hi_margin"
    using uint_offset_roll [OF assms] by simp_all
  have "sint ?r = uint ?r" "sint wrap_hi_margin = uint wrap_hi_margin"
    using r hi by (simp_all add: sint64)
  moreover have "sint wrap_lo_margin = 45"
    by (simp add: wrap_lo_margin_def sizeof_TFileHeader_def)
  ultimately show ?thesis
    using r by (simp add: word_sle_eq word_sless_alt)
qed

theorem offset_roll_in_region_witness:
  "wrap_lo_margin <s 64 \<and> wrap_lo_margin \<le>s offset_roll 63 64 1 \<and> offset_roll 63 64 1 <s 64
   \<and> offset_roll 63 64 1 = 45"
proof -
  have h: "wrap_lo_margin <s 64"
    by (simp add: wrap_lo_margin_def sizeof_TFileHeader_def word_sless_alt)
  have "offset_roll 63 64 1 = 45"
    by (simp add: offset_roll_def wrap_lo_margin_def sizeof_TFileHeader_def word_sless_alt)
  then show ?thesis
    using h offset_roll_in_region [OF h, of 63 1] by simp
qed

text \<open>
  C7 says a current offset below the start of the data region is clamped to the start, so
  that a zero increment returns the start. The conditional of \<^verbatim>\<open>offset_roll\<close> stores
  \<^verbatim>\<open>wrap_lo_margin\<close> itself into the region-relative \<^verbatim>\<open>sub_offset\<close>: with the region
  \<open>[45, 64)\<close> the call \<^verbatim>\<open>offset_roll(0, 64, 0)\<close> returns 45 + 45 mod 19 = 52.
\<close>

theorem offset_roll_below_start:
  "(0 :: off_t) <s wrap_lo_margin \<and> wrap_lo_margin <s 64 \<and> offset_roll 0 64 0 = 52
   \<and> offset_roll 0 64 0 \<noteq> wrap_lo_margin"
  by (simp add: offset_roll_def wrap_lo_margin_def sizeof_TFileHeader_def word_sless_alt)

subsection \<open>Chunked and naive transfers on lists\<close>

lemma length_write_at: "pos + length bs \<le> length c \<Longrightarrow> length (write_at c pos bs) = length c"
  by (simp add: write_at_def)

lemma nth_write_at:
  assumes "pos + length bs \<le> length c" and "k < length c"
  shows "write_at c pos bs ! k = (if pos \<le> k \<and> k < pos + length bs then bs ! (k - pos) else c ! k)"
  using assms by (auto simp: write_at_def nth_append)

lemma length_fold_update: "length (fold (\<lambda>i c'. c'[g i := h i]) is c) = length c"
  by (induction "is" arbitrary: c) simp_all

lemma nth_fold_update:
  assumes "inj_on g {0..<n}" and "\<forall>i<n. g i < length c"
  shows "fold (\<lambda>i c'. c'[g i := h i]) [0..<n] c ! k
           = (if k \<in> g ` {0..<n} then h (the_inv_into {0..<n} g k) else c ! k)"
  using assms
proof (induction n)
  case 0
  then show ?case by simp
next
  case (Suc n)
  let ?c = "fold (\<lambda>i c'. c'[g i := h i]) [0..<n] c"
  have inj: "inj_on g {0..<n}"
    using Suc.prems(1) by (rule inj_on_subset) auto
  have IH: "?c ! k = (if k \<in> g ` {0..<n} then h (the_inv_into {0..<n} g k) else c ! k)"
    using Suc.IH [OF inj] Suc.prems(2) by simp
  have fresh: "g n \<notin> g ` {0..<n}"
  proof
    assume "g n \<in> g ` {0..<n}"
    then obtain x where x: "x < n" "g n = g x" by auto
    have "n \<in> {0..<Suc n}" "x \<in> {0..<Suc n}"
      using x(1) by simp_all
    then have "n = x"
      by (rule inj_onD [OF Suc.prems(1) x(2)])
    then show False using x(1) by simp
  qed
  have old: "the_inv_into {0..<Suc n} g (g i) = i" if "i < Suc n" for i
    using that Suc.prems(1) by (simp add: the_inv_into_f_f)
  have old': "the_inv_into {0..<n} g (g i) = i" if "i < n" for i
    using that inj by (simp add: the_inv_into_f_f)
  show ?case
  proof (cases "k = g n")
    case True
    then show ?thesis
      using Suc.prems(2) old [of n] by (simp add: length_fold_update)
  next
    case False
    show ?thesis
    proof (cases "k \<in> g ` {0..<n}")
      case True
      then obtain i where i: "i < n" "k = g i" by auto
      then show ?thesis
        using False IH old [of i] old' [of i] by auto
    next
      case False2: False
      then have "k \<notin> g ` {0..<Suc n}"
        using False by (auto simp: less_Suc_eq)
      then show ?thesis
        using False False2 IH by simp
    qed
  qed
qed

lemma circ_pos_low:
  assumes "lo \<le> off" "off + i < hi"
  shows "circ_pos lo hi off i = off + i"
  using assms by (simp add: circ_pos_def)

lemma circ_pos_high:
  assumes "lo \<le> off" "off < hi" "hi \<le> off + i" "i < hi - lo"
  shows "circ_pos lo hi off i = lo + (i - (hi - off))"
proof -
  define r where "r = i - (hi - off)"
  have eq: "off - lo + i = (hi - lo) + r"
    using assms by (simp add: r_def)
  have r: "r < hi - lo"
    using assms by (simp add: r_def)
  have "(off - lo + i) mod (hi - lo) = ((hi - lo) + r) mod (hi - lo)"
    by (simp only: eq)
  also have "\<dots> = r mod (hi - lo)"
    by (rule mod_add_self1)
  also have "\<dots> = r"
    using r by simp
  finally show ?thesis
    by (simp add: circ_pos_def r_def)
qed

lemma circ_pos_inj:
  assumes "lo \<le> off" "off < hi" "n \<le> hi - lo"
  shows "inj_on (circ_pos lo hi off) {0..<n}"
proof (rule inj_onI)
  fix i j assume ij: "i \<in> {0..<n}" "j \<in> {0..<n}" and eq: "circ_pos lo hi off i = circ_pos lo hi off j"
  have lt: "i < hi - lo" "j < hi - lo"
    using ij assms(3) by simp_all
  consider "off + i < hi" "off + j < hi" | "off + i < hi" "hi \<le> off + j"
    | "hi \<le> off + i" "off + j < hi" | "hi \<le> off + i" "hi \<le> off + j"
    by linarith
  then show "i = j"
  proof cases
    case 1
    then show ?thesis
      using eq assms(1) by (simp add: circ_pos_low)
  next
    case 2
    then have "off + i = lo + (j - (hi - off))"
      using eq assms lt by (simp add: circ_pos_low circ_pos_high)
    then show ?thesis
      using 2 assms lt by linarith
  next
    case 3
    then have "lo + (i - (hi - off)) = off + j"
      using eq assms lt by (simp add: circ_pos_low circ_pos_high)
    then show ?thesis
      using 3 assms lt by linarith
  next
    case 4
    then have "lo + (i - (hi - off)) = lo + (j - (hi - off))"
      using eq assms lt by (simp add: circ_pos_high)
    then show ?thesis
      using 4 by linarith
  qed
qed

lemma circ_pos_bound:
  assumes "lo < hi"
  shows "lo \<le> circ_pos lo hi off i \<and> circ_pos lo hi off i < hi"
proof -
  have "(off - lo + i) mod (hi - lo) < hi - lo"
    using assms by simp
  then show ?thesis
    unfolding circ_pos_def by linarith
qed


lemma length_naive_write: "length (naive_write lo hi c off bs) = length c"
  by (simp add: naive_write_def length_fold_update)

lemma nth_naive_write_hit:
  assumes "lo \<le> off" "off < hi" "hi \<le> length c" "length bs \<le> hi - lo" "i < length bs"
  shows "naive_write lo hi c off bs ! circ_pos lo hi off i = bs ! i"
proof -
  have inj: "inj_on (circ_pos lo hi off) {0..<length bs}"
    using assms(1,2,4) by (rule circ_pos_inj)
  have bound: "\<forall>j<length bs. circ_pos lo hi off j < length c"
    using circ_pos_bound [of lo hi off] assms(1,2,3) by (meson le_less_trans less_le_trans)
  have mem: "circ_pos lo hi off i \<in> circ_pos lo hi off ` {0..<length bs}"
    using assms(5) by simp
  have "the_inv_into {0..<length bs} (circ_pos lo hi off) (circ_pos lo hi off i) = i"
    using inj assms(5) by (simp add: the_inv_into_f_f)
  then show ?thesis
    unfolding naive_write_def using nth_fold_update [OF inj bound, of "\<lambda>j. bs ! j" "circ_pos lo hi off i"] mem
    by simp
qed

lemma nth_naive_write_miss:
  assumes "lo \<le> off" "off < hi" "hi \<le> length c" "length bs \<le> hi - lo"
    and "\<forall>i<length bs. circ_pos lo hi off i \<noteq> k"
  shows "naive_write lo hi c off bs ! k = c ! k"
proof -
  have inj: "inj_on (circ_pos lo hi off) {0..<length bs}"
    using assms(1,2,4) by (rule circ_pos_inj)
  have bound: "\<forall>j<length bs. circ_pos lo hi off j < length c"
    using circ_pos_bound [of lo hi off] assms(1,2,3) by (meson le_less_trans less_le_trans)
  have "k \<notin> circ_pos lo hi off ` {0..<length bs}"
    using assms(5) by auto
  then show ?thesis
    unfolding naive_write_def using nth_fold_update [OF inj bound, of "\<lambda>j. bs ! j" k]
    by simp
qed

lemma naive_read_write:
  assumes "lo \<le> off" "off < hi" "hi \<le> length c" "length bs \<le> hi - lo"
  shows "naive_read lo hi (naive_write lo hi c off bs) off (length bs) = bs"
  by (rule nth_equalityI) (simp_all add: naive_read_def nth_naive_write_hit [OF assms])

lemma naive_write_single:
  assumes "lo \<le> off" "off + length bs \<le> hi" "hi \<le> length c" "bs \<noteq> []"
  shows "naive_write lo hi c off bs = write_at c off bs"
proof (rule nth_equalityI)
  show "length (naive_write lo hi c off bs) = length (write_at c off bs)"
    using assms by (simp add: length_naive_write length_write_at)
next
  fix k assume "k < length (naive_write lo hi c off bs)"
  then have k: "k < length c" by (simp add: length_naive_write)
  have off: "off < hi" "length bs \<le> hi - lo"
    using assms by (cases bs; simp)+
  have pos: "circ_pos lo hi off i = off + i" if "i < length bs" for i
    using that assms by (simp add: circ_pos_low)
  show "naive_write lo hi c off bs ! k = write_at c off bs ! k"
  proof (cases "off \<le> k \<and> k < off + length bs")
    case True
    then have idx: "k - off < length bs"
      by linarith
    have "naive_write lo hi c off bs ! circ_pos lo hi off (k - off) = bs ! (k - off)"
      using assms(1) off(1) assms(3) off(2) idx by (rule nth_naive_write_hit)
    then show ?thesis
      using True k assms pos [OF idx] by (simp add: nth_write_at)
  next
    case False
    then have "\<forall>i<length bs. circ_pos lo hi off i \<noteq> k"
      using pos by auto
    then have "naive_write lo hi c off bs ! k = c ! k"
      using assms off by (intro nth_naive_write_miss) simp_all
    then show ?thesis
      using False k assms by (auto simp: nth_write_at)
  qed
qed

lemma naive_write_double:
  assumes "lo \<le> off" "off < hi" "hi \<le> length c" "hi - off < length bs" "length bs \<le> hi - lo"
  shows "naive_write lo hi c off bs
           = write_at (write_at c off (take (hi - off) bs)) lo (drop (hi - off) bs)"
proof (rule nth_equalityI)
  show "length (naive_write lo hi c off bs)
          = length (write_at (write_at c off (take (hi - off) bs)) lo (drop (hi - off) bs))"
    using assms by (simp add: length_naive_write length_write_at)
next
  fix k assume "k < length (naive_write lo hi c off bs)"
  then have k: "k < length c" by (simp add: length_naive_write)
  define first where "first = hi - off"
  have first: "first < length bs" "off + first = hi" "0 < first"
    using assms by (simp_all add: first_def)
  have l1: "length (write_at c off (take first bs)) = length c"
    using assms first by (simp add: length_write_at)
  have pos1: "circ_pos lo hi off i = off + i" if "i < first" for i
    using that assms first by (simp add: circ_pos_low)
  have pos2: "circ_pos lo hi off i = lo + (i - first)" if "first \<le> i" "i < length bs" for i
    using that assms first unfolding first_def by (intro circ_pos_high) simp_all
  have rhs: "write_at (write_at c off (take first bs)) lo (drop first bs) ! k
               = (if lo \<le> k \<and> k < lo + (length bs - first) then bs ! (first + (k - lo))
                  else if off \<le> k \<and> k < hi then bs ! (k - off) else c ! k)"
  proof -
    have inner: "write_at c off (take first bs) ! k
                   = (if off \<le> k \<and> k < hi then bs ! (k - off) else c ! k)"
    proof (cases "off \<le> k \<and> k < hi")
      case True
      then have "k - off < first"
        using first(2) by linarith
      then show ?thesis
        using True assms first k by (simp add: nth_write_at)
    next
      case False
      then show ?thesis
        using assms first k by (auto simp: nth_write_at)
    qed
    have "lo + length (drop first bs) \<le> length (write_at c off (take first bs))"
      using assms first l1 by simp
    then show ?thesis
      using k l1 inner first by (simp add: nth_write_at add.commute)
  qed
  show "naive_write lo hi c off bs ! k
          = write_at (write_at c off (take (hi - off) bs)) lo (drop (hi - off) bs) ! k"
  proof (cases "lo \<le> k \<and> k < lo + (length bs - first)")
    case True
    have idx: "first + (k - lo) < length bs"
      using True first by linarith
    then have "naive_write lo hi c off bs ! circ_pos lo hi off (first + (k - lo)) = bs ! (first + (k - lo))"
      by (rule nth_naive_write_hit [OF assms(1,2,3,5)])
    moreover have "circ_pos lo hi off (first + (k - lo)) = lo + (first + (k - lo) - first)"
      using idx by (intro pos2) simp_all
    then have "circ_pos lo hi off (first + (k - lo)) = k"
      using True by simp
    ultimately show ?thesis
      using True rhs unfolding first_def [symmetric] by simp
  next
    case False
    show ?thesis
    proof (cases "off \<le> k \<and> k < hi")
      case True
      have idx: "k - off < first"
        using True first by linarith
      then have "k - off < length bs"
        using first by linarith
      then have "naive_write lo hi c off bs ! circ_pos lo hi off (k - off) = bs ! (k - off)"
        by (rule nth_naive_write_hit [OF assms(1,2,3,5)])
      moreover have "circ_pos lo hi off (k - off) = k"
        using pos1 [OF idx] True by simp
      ultimately show ?thesis
        using True False rhs unfolding first_def [symmetric] by auto
    next
      case False2: False
      have "circ_pos lo hi off i \<noteq> k" if "i < length bs" for i
      proof (cases "i < first")
        case True
        then have "circ_pos lo hi off i = off + i" "off + i < hi"
          using pos1 [of i] first by simp_all
        then show ?thesis using False2 by auto
      next
        case False3: False
        then have "circ_pos lo hi off i = lo + (i - first)" "i - first < length bs - first"
          using pos2 [of i] that by simp_all
        then show ?thesis using False by auto
      qed
      then have "naive_write lo hi c off bs ! k = c ! k"
        using assms by (intro nth_naive_write_miss) simp_all
      then show ?thesis
        using False False2 rhs unfolding first_def [symmetric] by auto
    qed
  qed
qed

lemma naive_read_single:
  assumes "lo \<le> off" "off + n \<le> hi" "hi \<le> length c"
  shows "naive_read lo hi c off n = take n (drop off c)"
proof (rule nth_equalityI)
  show "length (naive_read lo hi c off n) = length (take n (drop off c))"
    using assms by (simp add: naive_read_def)
next
  fix i assume "i < length (naive_read lo hi c off n)"
  then have i: "i < n" by (simp add: naive_read_def)
  then show "naive_read lo hi c off n ! i = take n (drop off c) ! i"
    using assms by (simp add: naive_read_def circ_pos_low)
qed

lemma naive_read_double:
  assumes "lo \<le> off" "off < hi" "hi \<le> length c" "hi - off < n" "n \<le> hi - lo"
  shows "naive_read lo hi c off n = take (hi - off) (drop off c) @ take (n - (hi - off)) (drop lo c)"
proof (rule nth_equalityI)
  show "length (naive_read lo hi c off n)
          = length (take (hi - off) (drop off c) @ take (n - (hi - off)) (drop lo c))"
    using assms by (simp add: naive_read_def)
next
  fix i assume "i < length (naive_read lo hi c off n)"
  then have i: "i < n" by (simp add: naive_read_def)
  show "naive_read lo hi c off n ! i
          = (take (hi - off) (drop off c) @ take (n - (hi - off)) (drop lo c)) ! i"
  proof (cases "i < hi - off")
    case True
    then show ?thesis
      using assms i by (simp add: naive_read_def circ_pos_low nth_append)
  next
    case False
    then have "circ_pos lo hi off i = lo + (i - (hi - off))"
      using assms i by (intro circ_pos_high) simp_all
    then show ?thesis
      using assms i False by (simp add: naive_read_def nth_append)
  qed
qed

subsection \<open>The POSIX loops on a file that holds the span\<close>

lemma multiread_zero: "multiread f 0 = (False, [], f)"
  by (subst multiread.simps) (simp add: sys_read_def)

lemma multiread_full:
  assumes "0 < n" and "fpos f + n \<le> length (content f)"
  shows "multiread f n = (True, take n (drop (fpos f) (content f)), f\<lparr>fpos := fpos f + n\<rparr>)"
  using assms by (subst multiread.simps) (simp add: sys_read_def Let_def)

lemma content_multiread: "content (snd (snd (multiread f n))) = content f"
proof (induction f n rule: multiread.induct)
  case (1 f len)
  show ?case
    using 1 by (subst multiread.simps) (auto simp: sys_read_def Let_def split: prod.splits)
qed

lemma multiwrite_empty: "multiwrite f [] = (False, f)"
  by (subst multiwrite.simps) (simp add: sys_write_def)

lemma multiwrite_full:
  assumes "bs \<noteq> []" and "fpos f \<le> length (content f)"
  shows "multiwrite f bs
           = (True, f\<lparr>content := write_at (content f) (fpos f) bs, fpos := fpos f + length bs\<rparr>)"
  using assms by (subst multiwrite.simps) (simp add: sys_write_def write_at_def)

lemma lseek_set_ok: "\<not> off <s 0 \<Longrightarrow> lseek_set f off = (True, f\<lparr>fpos := unat off\<rparr>)"
  by (simp add: lseek_set_def)

lemma not_sless_0: "uint (x :: 64 word) < 2 ^ 63 \<Longrightarrow> \<not> x <s 0"
  by (simp add: word_sless_alt sint64)

subsection \<open>Word facts about the data region\<close>

lemma region_facts:
  fixes c hi :: off_t
  assumes "wrap_lo_margin <s hi" and off_def: "off = offset_roll c hi 0"
  shows "45 < unat hi" and "45 \<le> unat off" and "unat off < unat hi"
    and "unat (hi - off) = unat hi - unat off"
    and "unat (hi - wrap_lo_margin) = unat hi - 45"
    and "\<not> off <s 0" and "\<not> wrap_lo_margin <s 0" and "unat wrap_lo_margin = 45"
    and "offset_roll off hi 0 = off"
proof -
  from assms(1) have hi: "45 < uint hi" "uint hi < 2^63" by (simp_all add: sless_lo_margin)
  have r: "45 \<le> uint off" "uint off < uint hi"
    unfolding off_def using uint_offset_roll [OF assms(1)] by simp_all
  show "45 < unat hi" using hi(1) unfolding unat_eq_nat_uint by linarith
  show "45 \<le> unat off" using r(1) unfolding unat_eq_nat_uint by linarith
  show "unat off < unat hi" using r(2) uint_nonnegative [of off] unfolding unat_eq_nat_uint by linarith
  have "off \<le> hi" using r(2) by (simp add: word_le_def)
  then show "unat (hi - off) = unat hi - unat off" by (rule unat_sub)
  have "wrap_lo_margin \<le> hi" using hi(1) by (simp add: word_le_def wrap_lo_margin_def sizeof_TFileHeader_def)
  then have "unat (hi - wrap_lo_margin) = unat hi - unat wrap_lo_margin" by (rule unat_sub)
  then show "unat (hi - wrap_lo_margin) = unat hi - 45"
    by (simp add: wrap_lo_margin_def sizeof_TFileHeader_def)
  have "uint off < 2^63" using r(2) hi(2) by linarith
  then show "\<not> off <s 0" by (rule not_sless_0)
  show "\<not> wrap_lo_margin <s 0" by (simp add: wrap_lo_margin_def sizeof_TFileHeader_def word_sless_alt)
  show "unat wrap_lo_margin = 45" by (simp add: wrap_lo_margin_def sizeof_TFileHeader_def)
  have ns: "\<not> off <s wrap_lo_margin"
    using r(1) \<open>uint off < 2^63\<close> by (simp add: word_sless_alt sint64 wrap_lo_margin_def sizeof_TFileHeader_def)
  have lo_le: "wrap_lo_margin \<le> off"
    using r(1) by (simp add: word_le_def wrap_lo_margin_def sizeof_TFileHeader_def)
  have "off - 45 < hi - 45"
    using r hi(1) by uint_arith
  then have "off - wrap_lo_margin < hi - wrap_lo_margin"
    by (simp add: wrap_lo_margin_def sizeof_TFileHeader_def)
  then have "(off - wrap_lo_margin) mod (hi - wrap_lo_margin) = off - wrap_lo_margin"
    by (simp add: mod_word_less)
  then show "offset_roll off hi 0 = off"
    using ns by (simp add: offset_roll_def Let_def)
qed


text \<open>An offset inside the region is left alone by the zero increment.\<close>

lemma sle_lo_margin: "wrap_lo_margin \<le>s e \<longleftrightarrow> 45 \<le> uint e \<and> uint e < 2 ^ 63"
  using uint_lt2p [of e]
  by (auto simp: word_sle_eq sint64 wrap_lo_margin_def sizeof_TFileHeader_def split: if_splits)

lemma offset_roll_in_range:
  assumes lo: "wrap_lo_margin \<le>s e" and hi: "e <s hi"
  shows "offset_roll e hi 0 = e"
proof -
  from lo have e: "45 \<le> uint e" "uint e < 2 ^ 63"
    by (simp_all add: sle_lo_margin)
  have "sint e = uint e"
    using e by (simp add: sint64)
  then have "uint e < sint hi"
    using hi by (simp add: word_sless_alt)
  then have h: "uint e < uint hi"
    using e(1) by (auto simp: sint64 split: if_splits)
  have ns: "\<not> e <s wrap_lo_margin"
    using e by (simp add: word_sless_alt sint64 wrap_lo_margin_def sizeof_TFileHeader_def)
  have "e - 45 < hi - 45"
    using e(1) h by uint_arith
  then have "e - wrap_lo_margin < hi - wrap_lo_margin"
    by (simp add: wrap_lo_margin_def sizeof_TFileHeader_def)
  then have "(e - wrap_lo_margin) mod (hi - wrap_lo_margin) = e - wrap_lo_margin"
    by (simp add: mod_word_less)
  then show ?thesis
    using ns by (simp add: offset_roll_def Let_def)
qed

lemma in_range_region:
  assumes lo: "wrap_lo_margin \<le>s e" and hi: "e <s hi"
  shows "wrap_lo_margin <s hi"
proof -
  from lo have e: "45 \<le> uint e" "uint e < 2 ^ 63"
    by (simp_all add: sle_lo_margin)
  have "sint e = uint e"
    using e by (simp add: sint64)
  then have s: "uint e < sint hi"
    using hi by (simp add: word_sless_alt)
  then have "45 < sint hi" using e(1) by linarith
  then show ?thesis
    by (simp add: word_sless_alt wrap_lo_margin_def sizeof_TFileHeader_def)
qed


subsection \<open>Wrapped I/O against the naive circular transfer\<close>

lemma wrapped_io_reject:
  "wrap_hi_margin - wrap_lo_margin \<le> len
     \<Longrightarrow> wrapped_io f data len offset0 wrap_hi_margin nxt do_write = (False, data, f, nxt)"
  by (simp add: wrapped_io_def Let_def)

lemma io_function_write:
  assumes "0 < n" "n \<le> length data" "fpos f \<le> length (content f)"
  shows "io_function True f data n
           = (True, data, f\<lparr>content := write_at (content f) (fpos f) (take n data),
                              fpos := fpos f + n\<rparr>)"
proof -
  have "take n data \<noteq> []" using assms(1,2) by auto
  then show ?thesis
    using assms by (simp add: io_function_def multiwrite_full min_absorb2)
qed

lemma io_function_read:
  assumes "0 < n" "fpos f + n \<le> length (content f)"
  shows "io_function False f data n
           = (True, take n (drop (fpos f) (content f)) @ drop n data, f\<lparr>fpos := fpos f + n\<rparr>)"
  using assms by (simp add: io_function_def multiread_full min_absorb2)

lemma wrapped_io_write_chunks:
  fixes hi offset0 len :: "64 word"
  assumes hi: "wrap_lo_margin <s hi"
    and fl: "unat hi \<le> length (content f)"
    and len: "len \<noteq> 0" "len < hi - wrap_lo_margin"
    and buf: "unat len \<le> length data"
  defines "off \<equiv> offset_roll offset0 hi 0"
  defines "first \<equiv> hi - off"
  shows "wrapped_io f data len offset0 hi nxt True
           = (True, data,
              f\<lparr>content :=
                   (if len \<le> first then write_at (content f) (unat off) (take (unat len) data)
                    else write_at (write_at (content f) (unat off) (take (unat first) data)) 45
                           (take (unat len - unat first) (drop (unat first) data))),
                fpos := (if len \<le> first then unat off + unat len
                         else 45 + (unat len - unat first))\<rparr>,
              store_out nxt (offset_roll off hi len))"
proof -
  note rf = region_facts [OF hi off_def [THEN meta_eq_to_obj_eq]]
  have first: "unat first = unat hi - unat off"
    unfolding first_def by (rule rf(4))
  have ulen: "0 < unat len"
    using len(1) by (simp add: unat_gt_0)
  have nrej: "\<not> hi - wrap_lo_margin \<le> len"
    using len(2) by simp
  have seek1: "lseek_set f off = (True, f\<lparr>fpos := unat off\<rparr>)"
    using rf(6) by (rule lseek_set_ok)
  show ?thesis
  proof (cases "len \<le> first")
    case True
    then have le: "unat len \<le> unat hi - unat off"
      using first by (simp add: word_le_nat_alt)
    have "io_function True (f\<lparr>fpos := unat off\<rparr>) data (unat len)
            = (True, data, f\<lparr>content := write_at (content f) (unat off) (take (unat len) data),
                               fpos := unat off + unat len\<rparr>)"
      using ulen buf rf(3) fl by (simp add: io_function_write)
    then show ?thesis
      using True nrej seek1
      by (simp add: wrapped_io_def Let_def off_def [symmetric] first_def [symmetric])
  next
    case False
    then have gt: "unat first < unat len"
      by (simp add: word_le_nat_alt)
    have sub: "unat (len - first) = unat len - unat first"
      using False by (intro unat_sub) simp
    have first_pos: "0 < unat first"
      using first rf(3) by simp
    have w1: "io_function True (f\<lparr>fpos := unat off\<rparr>) data (unat first)
            = (True, data, f\<lparr>content := write_at (content f) (unat off) (take (unat first) data),
                               fpos := unat off + unat first\<rparr>)"
      using first_pos gt buf rf(3) fl by (simp add: io_function_write)
    let ?f2 = "f\<lparr>content := write_at (content f) (unat off) (take (unat first) data),
                  fpos := unat off + unat first\<rparr>"
    have seek2: "lseek_set ?f2 wrap_lo_margin = (True, ?f2\<lparr>fpos := 45\<rparr>)"
      using rf(7) rf(8) by (simp add: lseek_set_ok)
    have len2: "length (write_at (content f) (unat off) (take (unat first) data)) = length (content f)"
      using first gt buf rf(3) fl by (simp add: length_write_at)
    have w2: "io_function True (?f2\<lparr>fpos := 45\<rparr>) (drop (unat first) data) (unat len - unat first)
            = (True, drop (unat first) data,
               ?f2\<lparr>content := write_at (content ?f2) 45
                                   (take (unat len - unat first) (drop (unat first) data)),
                    fpos := 45 + (unat len - unat first)\<rparr>)"
      using gt buf rf(1) fl len2 by (simp add: io_function_write)
    show ?thesis
      using False nrej seek1 w1 seek2 w2 sub
      by (simp add: wrapped_io_def Let_def off_def [symmetric] first_def [symmetric])
  qed
qed


lemma wrapped_io_read_chunks:
  fixes hi offset0 len :: "64 word"
  assumes hi: "wrap_lo_margin <s hi"
    and fl: "unat hi \<le> length (content f)"
    and len: "len \<noteq> 0" "len < hi - wrap_lo_margin"
  defines "off \<equiv> offset_roll offset0 hi 0"
  defines "first \<equiv> hi - off"
  shows "wrapped_io f buf len offset0 hi nxt False
           = (True,
              (if len \<le> first then take (unat len) (drop (unat off) (content f))
               else take (unat first) (drop (unat off) (content f))
                      @ take (unat len - unat first) (drop 45 (content f)))
                @ drop (unat len) buf,
              f\<lparr>fpos := (if len \<le> first then unat off + unat len
                         else 45 + (unat len - unat first))\<rparr>,
              store_out nxt (offset_roll off hi len))"
proof -
  note rf = region_facts [OF hi off_def [THEN meta_eq_to_obj_eq]]
  have first: "unat first = unat hi - unat off"
    unfolding first_def by (rule rf(4))
  have ulen: "0 < unat len"
    using len(1) by (simp add: unat_gt_0)
  have cap: "unat len < unat hi - 45"
    using len(2) rf(5) by (simp add: word_less_nat_alt)
  have nrej: "\<not> hi - wrap_lo_margin \<le> len"
    using len(2) by simp
  have seek1: "lseek_set f off = (True, f\<lparr>fpos := unat off\<rparr>)"
    using rf(6) by (rule lseek_set_ok)
  show ?thesis
  proof (cases "len \<le> first")
    case True
    then have le: "unat len \<le> unat hi - unat off"
      using first by (simp add: word_le_nat_alt)
    have "io_function False (f\<lparr>fpos := unat off\<rparr>) buf (unat len)
            = (True, take (unat len) (drop (unat off) (content f)) @ drop (unat len) buf,
               f\<lparr>fpos := unat off + unat len\<rparr>)"
      using ulen le rf(3) fl by (simp add: io_function_read)
    then show ?thesis
      using True nrej seek1
      by (simp add: wrapped_io_def Let_def off_def [symmetric] first_def [symmetric])
  next
    case False
    then have gt: "unat first < unat len"
      by (simp add: word_le_nat_alt)
    have sub: "unat (len - first) = unat len - unat first"
      using False by (intro unat_sub) simp
    have first_pos: "0 < unat first"
      using first rf(3) by simp
    let ?b1 = "take (unat first) (drop (unat off) (content f))"
    have l1: "length ?b1 = unat first"
      using first rf(3) fl by simp
    have r1: "io_function False (f\<lparr>fpos := unat off\<rparr>) buf (unat first)
            = (True, ?b1 @ drop (unat first) buf, f\<lparr>fpos := unat off + unat first\<rparr>)"
      using first_pos first rf(3) fl by (simp add: io_function_read)
    let ?f2 = "f\<lparr>fpos := unat off + unat first\<rparr>"
    have seek2: "lseek_set ?f2 wrap_lo_margin = (True, ?f2\<lparr>fpos := 45\<rparr>)"
      using rf(7) rf(8) by (simp add: lseek_set_ok)
    have r2: "io_function False (?f2\<lparr>fpos := 45\<rparr>) (drop (unat first) buf) (unat len - unat first)
            = (True,
               take (unat len - unat first) (drop 45 (content f))
                 @ drop (unat len - unat first) (drop (unat first) buf),
               ?f2\<lparr>fpos := 45 + (unat len - unat first)\<rparr>)"
      using gt cap fl by (simp add: io_function_read)
    have dd: "drop (unat len - unat first) (drop (unat first) buf) = drop (unat len) buf"
      using gt by simp
    show ?thesis
      using False nrej seek1 r1 seek2 r2 sub l1 dd
      by (simp add: wrapped_io_def Let_def off_def [symmetric] first_def [symmetric])
  qed
qed


text \<open>
  The transfer at the offset \<^verbatim>\<open>wrapped_io\<close> normalises to, for any offset passed in: with the
  region end above its start, the file holding the whole region and the buffer holding the
  span, every length strictly between 0 and the capacity is transferred as the naive
  circular transfer does it.
\<close>

lemma wrapped_io_at_normalised_offset:
  fixes hi offset0 len len' :: "64 word"
  assumes hi: "wrap_lo_margin <s hi"
    and fl: "unat hi \<le> length (content f)"
    and len: "len \<noteq> 0" "len < hi - wrap_lo_margin"
    and buf: "unat len \<le> length data"
  defines "off \<equiv> offset_roll offset0 hi 0"
  defines "first \<equiv> hi - off"
  defines "pos \<equiv> (if len \<le> first then unat off + unat len else 45 + (unat len - unat first))"
  defines "written \<equiv> naive_write 45 (unat hi) (content f) (unat off) (take (unat len) data)"
  shows "wrapped_io f data len offset0 hi nxt True
           = (True, data, f\<lparr>content := written, fpos := pos\<rparr>, store_out nxt (offset_roll off hi len))
         \<and> written
             = (if len \<le> first then write_at (content f) (unat off) (take (unat len) data)
                else write_at (write_at (content f) (unat off) (take (unat first) data)) 45
                       (take (unat len - unat first) (drop (unat first) data)))
         \<and> wrapped_io f rbuf len offset0 hi nxt False
             = (True, naive_read 45 (unat hi) (content f) (unat off) (unat len) @ drop (unat len) rbuf,
                f\<lparr>fpos := pos\<rparr>, store_out nxt (offset_roll off hi len))
         \<and> naive_read 45 (unat hi) (content f) (unat off) (unat len)
             = (if len \<le> first then take (unat len) (drop (unat off) (content f))
                else take (unat first) (drop (unat off) (content f))
                       @ take (unat len - unat first) (drop 45 (content f)))
         \<and> wrapped_io (f\<lparr>content := written, fpos := pos\<rparr>) rbuf len offset0 hi nxt False
             = (True, take (unat len) data @ drop (unat len) rbuf,
                f\<lparr>content := written, fpos := pos\<rparr>, store_out nxt (offset_roll off hi len))
         \<and> (hi - wrap_lo_margin \<le> len'
              \<longrightarrow> wrapped_io f data len' offset0 hi nxt do_write = (False, data, f, nxt))"
proof -
  note rf = region_facts [OF hi off_def [THEN meta_eq_to_obj_eq]]
  have first: "unat first = unat hi - unat off"
    unfolding first_def by (rule rf(4))
  have cap: "unat len < unat hi - 45"
    using len(2) rf(5) by (simp add: word_less_nat_alt)
  have ulen: "0 < unat len"
    using len(1) by (simp add: unat_gt_0)
  have ltake: "length (take (unat len) data) = unat len"
    using buf by simp
  have split_le: "len \<le> first \<longleftrightarrow> unat len \<le> unat hi - unat off"
    using first by (simp add: word_le_nat_alt)
  have w_eq: "written
             = (if len \<le> first then write_at (content f) (unat off) (take (unat len) data)
                else write_at (write_at (content f) (unat off) (take (unat first) data)) 45
                       (take (unat len - unat first) (drop (unat first) data)))"
  proof (cases "len \<le> first")
    case True
    have "naive_write 45 (unat hi) (content f) (unat off) (take (unat len) data)
            = write_at (content f) (unat off) (take (unat len) data)"
    proof (rule naive_write_single)
      show "45 \<le> unat off" by (rule rf(2))
      show "unat off + length (take (unat len) data) \<le> unat hi"
        using True split_le ltake rf(3) by simp
      show "unat hi \<le> length (content f)" by (rule fl)
      show "take (unat len) data \<noteq> []" using ltake ulen by auto
    qed
    then show ?thesis using True by (simp add: written_def)
  next
    case False
    have "naive_write 45 (unat hi) (content f) (unat off) (take (unat len) data)
            = write_at (write_at (content f) (unat off) (take (unat hi - unat off) (take (unat len) data)))
                45 (drop (unat hi - unat off) (take (unat len) data))"
    proof (rule naive_write_double)
      show "45 \<le> unat off" by (rule rf(2))
      show "unat off < unat hi" by (rule rf(3))
      show "unat hi \<le> length (content f)" by (rule fl)
      show "unat hi - unat off < length (take (unat len) data)"
        using False split_le ltake by simp
      show "length (take (unat len) data) \<le> unat hi - 45"
        using cap ltake by simp
    qed
    moreover have "take (unat hi - unat off) (take (unat len) data) = take (unat first) data"
      using False split_le first by (simp add: min_absorb1)
    moreover have "drop (unat hi - unat off) (take (unat len) data)
                     = take (unat len - unat first) (drop (unat first) data)"
      using first by (simp add: drop_take)
    ultimately show ?thesis using False by (simp add: written_def)
  qed
  have r_eq: "naive_read 45 (unat hi) c (unat off) (unat len)
             = (if len \<le> first then take (unat len) (drop (unat off) c)
                else take (unat first) (drop (unat off) c) @ take (unat len - unat first) (drop 45 c))"
    if c: "unat hi \<le> length c" for c :: "byte list"
  proof (cases "len \<le> first")
    case True
    have "naive_read 45 (unat hi) c (unat off) (unat len) = take (unat len) (drop (unat off) c)"
      using rf(2) True split_le rf(3) c by (intro naive_read_single) simp_all
    then show ?thesis using True by simp
  next
    case False
    have "naive_read 45 (unat hi) c (unat off) (unat len)
            = take (unat hi - unat off) (drop (unat off) c)
                @ take (unat len - (unat hi - unat off)) (drop 45 c)"
      using rf(2) rf(3) c False split_le cap by (intro naive_read_double) simp_all
    then show ?thesis using False first by simp
  qed
  have w: "wrapped_io f data len offset0 hi nxt True
           = (True, data, f\<lparr>content := written, fpos := pos\<rparr>, store_out nxt (offset_roll off hi len))"
    using wrapped_io_write_chunks [OF hi fl len buf, where ?offset0.0 = offset0 and nxt = nxt] w_eq
    by (simp add: off_def first_def pos_def)
  have r: "wrapped_io g rbuf len offset0 hi nxt False
             = (True, naive_read 45 (unat hi) (content g) (unat off) (unat len) @ drop (unat len) rbuf,
                g\<lparr>fpos := pos\<rparr>, store_out nxt (offset_roll off hi len))"
    if g: "unat hi \<le> length (content g)" for g
    using wrapped_io_read_chunks [OF hi g len, where ?offset0.0 = offset0 and buf = rbuf and nxt = nxt] r_eq [OF g]
    by (simp add: off_def first_def pos_def)
  have lw: "length written = length (content f)"
    by (simp add: written_def length_naive_write)
  have readback: "naive_read 45 (unat hi) written (unat off) (unat len) = take (unat len) data"
    using naive_read_write [of 45 "unat off" "unat hi" "content f" "take (unat len) data"]
      rf(2) rf(3) fl cap ltake by (simp add: written_def)
  have rt: "wrapped_io (f\<lparr>content := written, fpos := pos\<rparr>) rbuf len offset0 hi nxt False
             = (True, take (unat len) data @ drop (unat len) rbuf,
                f\<lparr>content := written, fpos := pos\<rparr>, store_out nxt (offset_roll off hi len))"
    using r [of "f\<lparr>content := written, fpos := pos\<rparr>"] lw fl readback by simp
  show ?thesis
    using w w_eq r [OF fl] r_eq [OF fl] rt wrapped_io_reject [where wrap_hi_margin = hi and len = len' and f = f and data = data and ?offset0.0 = offset0 and nxt = nxt and do_write = do_write]
    by blast
qed


text \<open>
  The same at an offset the caller keeps inside the region, which is then the offset of the
  transfer itself. For every length strictly between 0 and the capacity
  \<open>hi - wrap_lo_margin\<close>, \<^verbatim>\<open>wrapped_io\<close> succeeds; a write stores exactly the span
  (\<open>naive_write\<close>), a read returns exactly the bytes of the region (\<open>naive_read\<close>); either is
  one contiguous operation when the length is at most \<open>hi - offset\<close> and otherwise two, the
  first \<open>hi - offset\<close> bytes at the offset and the rest at the start of the region; reading
  back what was written returns the span. A length at or above the capacity is refused with
  buffer, file and out-parameter untouched.
\<close>

lemma wrapped_io_is_circular_transfer:
  fixes hi offset0 len len' :: "64 word"
  assumes lo: "wrap_lo_margin \<le>s offset0"
    and hi: "offset0 <s hi"
    and fl: "unat hi \<le> length (content f)"
    and len: "len \<noteq> 0" "len < hi - wrap_lo_margin"
    and buf: "unat len \<le> length data"
  defines "first \<equiv> hi - offset0"
  defines "pos \<equiv> (if len \<le> first then unat offset0 + unat len else 45 + (unat len - unat first))"
  defines "written \<equiv> naive_write 45 (unat hi) (content f) (unat offset0) (take (unat len) data)"
  shows "wrapped_io f data len offset0 hi nxt True
           = (True, data, f\<lparr>content := written, fpos := pos\<rparr>,
              store_out nxt (offset_roll offset0 hi len))
         \<and> written
             = (if len \<le> first then write_at (content f) (unat offset0) (take (unat len) data)
                else write_at (write_at (content f) (unat offset0) (take (unat first) data)) 45
                       (take (unat len - unat first) (drop (unat first) data)))
         \<and> wrapped_io f rbuf len offset0 hi nxt False
             = (True, naive_read 45 (unat hi) (content f) (unat offset0) (unat len) @ drop (unat len) rbuf,
                f\<lparr>fpos := pos\<rparr>, store_out nxt (offset_roll offset0 hi len))
         \<and> naive_read 45 (unat hi) (content f) (unat offset0) (unat len)
             = (if len \<le> first then take (unat len) (drop (unat offset0) (content f))
                else take (unat first) (drop (unat offset0) (content f))
                       @ take (unat len - unat first) (drop 45 (content f)))
         \<and> wrapped_io (f\<lparr>content := written, fpos := pos\<rparr>) rbuf len offset0 hi nxt False
             = (True, take (unat len) data @ drop (unat len) rbuf,
                f\<lparr>content := written, fpos := pos\<rparr>, store_out nxt (offset_roll offset0 hi len))
         \<and> (hi - wrap_lo_margin \<le> len'
              \<longrightarrow> wrapped_io f data len' offset0 hi nxt do_write = (False, data, f, nxt))"
  unfolding first_def pos_def written_def
  by (rule wrapped_io_at_normalised_offset [OF in_range_region [OF lo hi] fl len buf,
             where ?offset0.0 = offset0, unfolded offset_roll_in_range [OF lo hi]])


lemma wrapped_io_split_write_example:
  "wrap_lo_margin <s 64
   \<and> unat (64 :: off_t) \<le> length (content (blank_file 64))
   \<and> (6 :: size_t) \<noteq> 0
   \<and> (6 :: size_t) < 64 - wrap_lo_margin
   \<and> unat (6 :: size_t) \<le> length test_message
   \<and> wrapped_io (blank_file 64) test_message 6 60 64 None True
       = (True, test_message,
          \<lparr>content = replicate 45 0 @ [0x20, 0x6D] @ replicate 13 0 @ [0x54, 0x65, 0x73, 0x74],
           fpos = 47\<rparr>,
          None)
   \<and> naive_write 45 64 (content (blank_file 64)) 60 (take 6 test_message)
       = replicate 45 0 @ [0x20, 0x6D] @ replicate 13 0 @ [0x54, 0x65, 0x73, 0x74]"
proof -
  have h1: "wrap_lo_margin <s 64"
    by (simp add: wrap_lo_margin_def sizeof_TFileHeader_def word_sless_alt)
  have h2: "unat (64 :: off_t) \<le> length (content (blank_file 64))"
    by (simp add: blank_file_def)
  have h3: "(6 :: size_t) \<noteq> 0"
    by simp
  have h4: "(6 :: size_t) < 64 - wrap_lo_margin"
    by (simp add: wrap_lo_margin_def sizeof_TFileHeader_def)
  have h5: "unat (6 :: size_t) \<le> length test_message"
    by (simp add: test_message_def)
  have run: "wrapped_io (blank_file 64) test_message 6 60 64 None True
       = (True, test_message,
          \<lparr>content = replicate 45 0 @ [0x20, 0x6D] @ replicate 13 0 @ [0x54, 0x65, 0x73, 0x74],
           fpos = 47\<rparr>,
          None)"
    by code_simp
  have "content (fst (snd (snd (wrapped_io (blank_file 64) test_message 6 60 64 None True))))
          = naive_write 45 (unat (64 :: off_t)) (content (blank_file 64))
              (unat (offset_roll 60 64 0)) (take (unat (6 :: size_t)) test_message)"
    using wrapped_io_at_normalised_offset [OF h1 h2 h3 h4 h5, where ?offset0.0 = 60 and nxt = None]
    by simp
  moreover have "offset_roll 60 64 0 = 60"
    by (simp add: offset_roll_def wrap_lo_margin_def sizeof_TFileHeader_def word_sless_alt)
  ultimately show ?thesis
    using h1 h2 h3 h4 h5 run by simp
qed

text \<open>
  C9 asks the naive transfer of every length below the capacity, and 0 is such a length: no
  byte moves and the transfer is done. \<^verbatim>\<open>wrapped_io\<close> reports it as failed, for writing and
  for reading: \<^verbatim>\<open>multiwrite\<close> and \<^verbatim>\<open>multiread\<close> run their loop body once, issue the
  zero-byte call and take its return value 0 for an error. \<^verbatim>\<open>PERSIMQ_push\<close> reaches it
  with an empty payload: on the fresh queue of a 64-byte file, with room for the record
  header, it writes the header, gives up the descriptor and returns \<^verbatim>\<open>false\<close>.
\<close>

theorem wrapped_io_zero_length_fails:
  "wrap_lo_margin <s 64
   \<and> unat (64 :: off_t) \<le> length (content (blank_file 64))
   \<and> (0 :: size_t) < 64 - wrap_lo_margin
   \<and> wrapped_io (blank_file 64) test_message 0 45 64 None True
       = (False, test_message, blank_file 64, None)
   \<and> wrapped_io (blank_file 64) [] 0 45 64 None False = (False, [], blank_file 64, None)
   \<and> sizeof_TMessageHeader + 0 \<le> PERSIMQ_bytes_free (empty_handle 64)
   \<and> PERSIMQ_push (empty_handle 64) (blank_file 64) [] 0
       = (False,
          \<lparr>fd = 0, append_ptr = 53, extract_ptr = 45, count_bytes = 0, count_messages = 0,
           file_size = 64\<rparr>,
          \<lparr>content = replicate 45 0 @ [0x50, 0x4D, 0x51, 0, 0, 0, 0, 0] @ replicate 11 0,
           fpos = 53\<rparr>)"
proof -
  have io: "wrap_lo_margin <s 64
   \<and> unat (64 :: off_t) \<le> length (content (blank_file 64))
   \<and> (0 :: size_t) < 64 - wrap_lo_margin
   \<and> wrapped_io (blank_file 64) test_message 0 45 64 None True
       = (False, test_message, blank_file 64, None)
   \<and> wrapped_io (blank_file 64) [] 0 45 64 None False = (False, [], blank_file 64, None)"
    by (simp add: wrap_lo_margin_def sizeof_TFileHeader_def word_sless_alt blank_file_def
        wrapped_io_def offset_roll_def lseek_set_def io_function_def multiwrite_empty
        multiread_zero store_out_def)
  have free: "sizeof_TMessageHeader + 0 \<le> PERSIMQ_bytes_free (empty_handle 64)"
    by (simp add: PERSIMQ_bytes_free_def empty_handle_def sizeof_TFileHeader_def
          sizeof_TMessageHeader_def)
  have push: "PERSIMQ_push (empty_handle 64) (blank_file 64) [] 0
       = (False,
          \<lparr>fd = 0, append_ptr = 53, extract_ptr = 45, count_bytes = 0, count_messages = 0,
           file_size = 64\<rparr>,
          \<lparr>content = replicate 45 0 @ [0x50, 0x4D, 0x51, 0, 0, 0, 0, 0] @ replicate 11 0,
           fpos = 53\<rparr>)"
    by code_simp
  show ?thesis
    using io free push by blast
qed

subsection \<open>Opening a queue file\<close>

lemma sless_open_size:
  "sizeof_TFileHeader + sizeof_TMessageHeader + 1 <s n \<longleftrightarrow> 54 < uint n \<and> uint n < 2 ^ 63"
  using uint_lt2p [of n]
  by (auto simp: word_sless_alt sint64 sizeof_TMessageHeader_def sizeof_TFileHeader_def split: if_splits)

lemma PERSIMQ_open_result:
  fixes mqfile_size :: off_t and f :: qfile
  assumes size: "sizeof_TFileHeader + sizeof_TMessageHeader + 1 <s mqfile_size"
    and os_fd: "os_fd \<noteq> - 1"
  defines "disk \<equiv> take (unat mqfile_size) (content f)
                    @ replicate (unat mqfile_size - length (content f)) 0"
  defines "header \<equiv> TFileHeader_of (take 45 disk)"
  shows "PERSIMQ_open mq f os_fd mqfile_size
           = (True,
              (if fh_ID header = file_magic \<and> eval_crc8 (take 44 disk) = fh_crc header
                    \<and> mqfile_size = fh_file_size header
               then \<lparr>fd = os_fd, append_ptr = fh_append_ptr header,
                     extract_ptr = fh_extract_ptr header, count_bytes = fh_count_bytes header,
                     count_messages = fh_count_messages header, file_size = mqfile_size\<rparr>
               else \<lparr>fd = os_fd, append_ptr = sizeof_TFileHeader, extract_ptr = sizeof_TFileHeader,
                     count_bytes = 0, count_messages = 0, file_size = mqfile_size\<rparr>),
              \<lparr>content = disk, fpos = 45\<rparr>)"
proof -
  from size have n: "54 < uint mqfile_size" "uint mqfile_size < 2 ^ 63"
    by (simp_all add: sless_open_size)
  have gt: "\<not> mqfile_size \<le> sizeof_TFileHeader + sizeof_TMessageHeader + 1"
    using n(1) by (simp add: word_le_def sizeof_TMessageHeader_def sizeof_TFileHeader_def)
  have "\<not> mqfile_size <s 0"
    using n(2) by (rule not_sless_0)
  then have trunc: "ftruncate_file (f\<lparr>fpos := 0\<rparr>) mqfile_size = (True, \<lparr>content = disk, fpos = 0\<rparr>)"
    by (simp add: ftruncate_file_def disk_def)
  have seek: "lseek_set \<lparr>content = disk, fpos = 0\<rparr> 0 = (True, \<lparr>content = disk, fpos = 0\<rparr>)"
    by (simp add: lseek_set_def)
  have "54 < unat mqfile_size"
    using n(1) unfolding unat_eq_nat_uint by linarith
  then have len: "45 \<le> length disk"
    by (simp add: disk_def)
  have rd: "multiread \<lparr>content = disk, fpos = 0\<rparr> 45
              = (True, take 45 disk, \<lparr>content = disk, fpos = 45\<rparr>)"
    using len by (simp add: multiread_full)
  have t44: "take 44 (take 45 disk) = take 44 disk"
    by simp
  show ?thesis
    unfolding PERSIMQ_open_def using gt os_fd
    by (simp add: trunc seek rd Let_def unat_sizeof_TFileHeader t44 header_def [symmetric])
qed


lemma PERSIMQ_open_too_small:
  assumes "0 \<le>s mqfile_size"
    and "mqfile_size \<le>s sizeof_TFileHeader + sizeof_TMessageHeader + 1"
  shows "PERSIMQ_open mq f os_fd mqfile_size = (False, mq, f)"
proof -
  have "0 \<le> sint mqfile_size" "sint mqfile_size \<le> 54"
    using assms by (simp_all add: word_sle_eq sizeof_TFileHeader_def sizeof_TMessageHeader_def)
  then have "uint mqfile_size \<le> 54"
    using uint_lt2p [of mqfile_size] by (auto simp: sint64 split: if_splits)
  then have "mqfile_size \<le> sizeof_TFileHeader + sizeof_TMessageHeader + 1"
    by (simp add: word_le_def sizeof_TFileHeader_def sizeof_TMessageHeader_def)
  then show ?thesis
    by (simp add: PERSIMQ_open_def)
qed

text \<open>
  C3, amended. For every file and every requested size above
  \<^verbatim>\<open>sizeof(TFileHeader) + sizeof(TMessageHeader) + 1\<close> (as an \<^verbatim>\<open>off_t\<close>), when \<^verbatim>\<open>open(2)\<close>
  yields a descriptor, \<^verbatim>\<open>PERSIMQ_open\<close> succeeds, leaves the file resized to the requested
  size, and fills the handle from the header on disk exactly when the magic tag matches,
  the stored checksum is the CRC8 of the 44 bytes before it and the recorded file size is
  the requested one; in every other case the handle is the empty state, both pointers at
  the start of the data region and both counts zero. A requested size from 0 up to that
  bound is refused with the handle and the file as they were.
\<close>

theorem open_adopts_valid_header:
  fixes mqfile_size :: off_t and f :: qfile
  defines "disk \<equiv> take (unat mqfile_size) (content f)
                    @ replicate (unat mqfile_size - length (content f)) 0"
  defines "header \<equiv> TFileHeader_of (take 45 disk)"
  shows "(sizeof_TFileHeader + sizeof_TMessageHeader + 1 <s mqfile_size \<and> os_fd \<noteq> - 1
          \<longrightarrow> PERSIMQ_open mq f os_fd mqfile_size
           = (True,
              (if fh_ID header = file_magic \<and> eval_crc8 (take 44 disk) = fh_crc header
                    \<and> mqfile_size = fh_file_size header
               then \<lparr>fd = os_fd, append_ptr = fh_append_ptr header,
                     extract_ptr = fh_extract_ptr header, count_bytes = fh_count_bytes header,
                     count_messages = fh_count_messages header, file_size = mqfile_size\<rparr>
               else \<lparr>fd = os_fd, append_ptr = sizeof_TFileHeader, extract_ptr = sizeof_TFileHeader,
                     count_bytes = 0, count_messages = 0, file_size = mqfile_size\<rparr>),
              \<lparr>content = disk, fpos = 45\<rparr>))
         \<and> (0 \<le>s mqfile_size \<and> mqfile_size \<le>s sizeof_TFileHeader + sizeof_TMessageHeader + 1
              \<longrightarrow> PERSIMQ_open mq f os_fd mqfile_size = (False, mq, f))"
  unfolding disk_def header_def
  using PERSIMQ_open_result [of mqfile_size os_fd mq f]
    PERSIMQ_open_too_small [of mqfile_size mq f os_fd]
  by blast

theorem open_adopts_valid_header_witness:
  "sizeof_TFileHeader + sizeof_TMessageHeader + 1 <s (80 :: off_t)
   \<and> (4 :: 32 word) \<noteq> - 1
   \<and> fst (PERSIMQ_open stale_handle (snd (PERSIMQ_sync one_message_handle one_message_file)) 4 80)
   \<and> fst (snd (PERSIMQ_open stale_handle
                  (snd (PERSIMQ_sync one_message_handle one_message_file)) 4 80))
       = one_message_handle\<lparr>fd := 4\<rparr>
   \<and> fst (snd (PERSIMQ_open stale_handle \<lparr>content = [], fpos = 0\<rparr> 4 80))
       = (empty_handle 80)\<lparr>fd := 4\<rparr>
   \<and> (0 :: off_t) \<le>s 50
   \<and> (50 :: off_t) \<le>s sizeof_TFileHeader + sizeof_TMessageHeader + 1
   \<and> PERSIMQ_open stale_handle small_header_file 4 50 = (False, stale_handle, small_header_file)"
proof -
  have h1: "sizeof_TFileHeader + sizeof_TMessageHeader + 1 <s (80 :: off_t)"
    by (simp add: sizeof_TFileHeader_def sizeof_TMessageHeader_def word_sless_alt)
  have h2: "(4 :: 32 word) \<noteq> - 1"
    by simp
  have h3: "(0 :: off_t) \<le>s 50"
    by (simp add: word_sle_eq)
  have h4: "(50 :: off_t) \<le>s sizeof_TFileHeader + sizeof_TMessageHeader + 1"
    by (simp add: sizeof_TFileHeader_def sizeof_TMessageHeader_def word_sle_eq)
  have ok: "fst (PERSIMQ_open stale_handle (snd (PERSIMQ_sync one_message_handle one_message_file)) 4 80)"
    using open_adopts_valid_header [of 80 4 stale_handle "snd (PERSIMQ_sync one_message_handle one_message_file)"] h1 h2
    by simp
  have small: "PERSIMQ_open stale_handle small_header_file 4 50
                 = (False, stale_handle, small_header_file)"
    using open_adopts_valid_header [of 50 4 stale_handle small_header_file] h3 h4 by blast
  have recovered: "fst (snd (PERSIMQ_open stale_handle
                  (snd (PERSIMQ_sync one_message_handle one_message_file)) 4 80))
       = one_message_handle\<lparr>fd := 4\<rparr>"
    by code_simp
  have fresh: "fst (snd (PERSIMQ_open stale_handle \<lparr>content = [], fpos = 0\<rparr> 4 80))
       = (empty_handle 80)\<lparr>fd := 4\<rparr>"
    by code_simp
  show ?thesis
    using h1 h2 h3 h4 ok small recovered fresh by blast
qed

text \<open>
  C3, as stated, ranges over every requested size. The size 50 is refused before the file is
  looked at, although the file is 50 bytes long and starts with a header whose tag and
  checksum are right and whose recorded size is the requested 50.
\<close>

theorem open_refuses_small_size:
  "fh_ID (TFileHeader_of (take 45 (content small_header_file))) = file_magic
   \<and> eval_crc8 (take 44 (content small_header_file))
       = fh_crc (TFileHeader_of (take 45 (content small_header_file)))
   \<and> fh_file_size (TFileHeader_of (take 45 (content small_header_file))) = 50
   \<and> length (content small_header_file) = 50
   \<and> PERSIMQ_open closed_handle small_header_file 4 50 = (False, closed_handle, small_header_file)"
  by code_simp

text \<open>Every handle \<^verbatim>\<open>PERSIMQ_open\<close> returns with success has a data region of more than nine
  bytes, and the file is as long as the handle says.\<close>

lemma open_establishes_region:
  assumes "PERSIMQ_open mq f os_fd n = (True, mq', f')"
  shows "sizeof_TFileHeader + sizeof_TMessageHeader + 1 <s file_size mq'"
    and "unat (file_size mq') = length (content f')"
    and "fd mq' = os_fd"
proof -
  have gt: "\<not> n \<le> sizeof_TFileHeader + sizeof_TMessageHeader + 1"
    using assms by (auto simp: PERSIMQ_open_def)
  have fd: "os_fd \<noteq> - 1"
    using assms gt by (auto simp: PERSIMQ_open_def)
  have nn: "\<not> n <s 0"
    using assms gt fd by (auto simp: PERSIMQ_open_def ftruncate_file_def Let_def)
  have "54 < uint n"
    using gt by (simp add: word_le_def sizeof_TFileHeader_def sizeof_TMessageHeader_def)
  moreover have "uint n < 2 ^ 63"
    using nn uint_lt2p [of n] by (auto simp: word_sless_alt sint64 split: if_splits)
  ultimately have size: "sizeof_TFileHeader + sizeof_TMessageHeader + 1 <s n"
    by (simp add: sless_open_size)
  note res = PERSIMQ_open_result [OF size fd, of mq f]
  show "sizeof_TFileHeader + sizeof_TMessageHeader + 1 <s file_size mq'"
    using assms res size by (auto split: if_splits)
  show "unat (file_size mq') = length (content f')"
    using assms res by (auto split: if_splits)
  show "fd mq' = os_fd"
    using assms res by (auto split: if_splits)
qed

subsection \<open>Get with a buffer that is too small\<close>

lemma wrapped_io_read_naive:
  fixes hi offset0 len :: "64 word"
  assumes hi: "wrap_lo_margin <s hi"
    and fl: "unat hi \<le> length (content f)"
    and len: "len \<noteq> 0" "len < hi - wrap_lo_margin"
  defines "off \<equiv> offset_roll offset0 hi 0"
  shows "wrapped_io f rbuf len offset0 hi nxt False
           = (True, naive_read 45 (unat hi) (content f) (unat off) (unat len) @ drop (unat len) rbuf,
              f\<lparr>fpos := (if len \<le> hi - off then unat off + unat len
                         else 45 + (unat len - unat (hi - off)))\<rparr>,
              store_out nxt (offset_roll off hi len))"
proof -
  note rf = region_facts [OF hi off_def [THEN meta_eq_to_obj_eq]]
  have cap: "unat len < unat hi - 45"
    using len(2) rf(5) by (simp add: word_less_nat_alt)
  have split_le: "len \<le> hi - off \<longleftrightarrow> unat len \<le> unat hi - unat off"
    using rf(4) by (simp add: word_le_nat_alt)
  have "naive_read 45 (unat hi) (content f) (unat off) (unat len)
          = (if len \<le> hi - off then take (unat len) (drop (unat off) (content f))
             else take (unat (hi - off)) (drop (unat off) (content f))
                    @ take (unat len - unat (hi - off)) (drop 45 (content f)))"
  proof (cases "len \<le> hi - off")
    case True
    have "naive_read 45 (unat hi) (content f) (unat off) (unat len)
            = take (unat len) (drop (unat off) (content f))"
      using rf(2) True split_le rf(3) fl by (intro naive_read_single) simp_all
    then show ?thesis using True by simp
  next
    case False
    have "naive_read 45 (unat hi) (content f) (unat off) (unat len)
            = take (unat hi - unat off) (drop (unat off) (content f))
                @ take (unat len - (unat hi - unat off)) (drop 45 (content f))"
      using rf(2) rf(3) fl False split_le cap by (intro naive_read_double) simp_all
    then show ?thesis using False rf(4) by simp
  qed
  then show ?thesis
    using wrapped_io_read_chunks [OF hi fl len, where ?offset0.0 = offset0 and buf = rbuf and nxt = nxt]
    by (simp add: off_def)
qed

lemma header_span:
  assumes "sizeof_TFileHeader + sizeof_TMessageHeader + 1 <s (hi :: off_t)"
  shows "wrap_lo_margin <s hi" and "sizeof_TMessageHeader \<noteq> 0"
    and "sizeof_TMessageHeader < hi - wrap_lo_margin"
proof -
  from assms have n: "54 < uint hi" "uint hi < 2 ^ 63"
    by (simp_all add: sless_open_size)
  then show "wrap_lo_margin <s hi"
    by (simp add: sless_lo_margin)
  show "sizeof_TMessageHeader \<noteq> 0"
    by (simp add: sizeof_TMessageHeader_def)
  have "8 < hi - 45"
    using n by uint_arith
  then show "sizeof_TMessageHeader < hi - wrap_lo_margin"
    by (simp add: sizeof_TMessageHeader_def wrap_lo_margin_def sizeof_TFileHeader_def)
qed

lemma read_message_header_valid:
  assumes opened: "fd mq \<noteq> 0"
    and size: "sizeof_TFileHeader + sizeof_TMessageHeader + 1 <s file_size mq"
    and fl: "unat (file_size mq) \<le> length (content f)"
    and tag: "mh_ID (TMessageHeader_of (naive_read 45 (unat (file_size mq)) (content f)
                       (unat (offset_roll offset0 (file_size mq) 0)) 8)) = message_magic"
  shows "PERSIMQ_read_message_header mq f offset0
           = (Some (TMessageHeader_of (naive_read 45 (unat (file_size mq)) (content f)
                       (unat (offset_roll offset0 (file_size mq) 0)) 8)),
              mq,
              f\<lparr>fpos := fpos (snd (snd (PERSIMQ_read_message_header mq f offset0)))\<rparr>)"
proof -
  note hs = header_span [OF size]
  define off where "off = offset_roll offset0 (file_size mq) 0"
  have idem: "offset_roll off (file_size mq) 0 = off"
    using region_facts(9) [OF hs(1) off_def] .
  have "wrapped_io f [] sizeof_TMessageHeader off (file_size mq) None False
          = (True, naive_read 45 (unat (file_size mq)) (content f) (unat off) 8,
             f\<lparr>fpos := (if sizeof_TMessageHeader \<le> file_size mq - off then unat off + 8
                         else 45 + (8 - unat (file_size mq - off)))\<rparr>,
             None)"
    using wrapped_io_read_naive [OF hs(1) fl hs(2) hs(3), where ?offset0.0 = off and rbuf = "[]" and nxt = None]
    by (simp add: idem unat_sizeof_TMessageHeader store_out_def)
  then show ?thesis
    using opened tag
    by (simp add: PERSIMQ_read_message_header_def Let_def off_def [symmetric])
qed

text \<open>
  C10. Take an open handle that counts at least one message, on a file that holds the
  whole region of a size \<^verbatim>\<open>PERSIMQ_open\<close> accepts (as \<open>open_establishes_region\<close> shows for
  the handles it returns), and let the eight bytes at the
  (normalised) extract pointer, read around the region, carry the tag \<^verbatim>\<open>"PMQ"\<close>. When the
  length recorded there exceeds \<^verbatim>\<open>buffer_size\<close>, \<^verbatim>\<open>PERSIMQ_get\<close> returns \<^verbatim>\<open>false\<close>; the handle
  and the buffer are unchanged, the file differs at most in the position of the
  descriptor, and the recorded length has been stored through \<^verbatim>\<open>message_size\<close> when that
  pointer is not null (\<open>store_out\<close>).
\<close>

theorem get_buffer_too_small:
  assumes opened: "fd mq \<noteq> 0"
    and nonempty: "count_messages mq \<noteq> 0"
    and size: "sizeof_TFileHeader + sizeof_TMessageHeader + 1 <s file_size mq"
    and fl: "unat (file_size mq) \<le> length (content f)"
    and tag: "mh_ID (TMessageHeader_of (naive_read 45 (unat (file_size mq)) (content f)
                       (unat (offset_roll (extract_ptr mq) (file_size mq) 0)) 8)) = message_magic"
    and small: "buffer_size < ucast (message_size (TMessageHeader_of
                       (naive_read 45 (unat (file_size mq)) (content f)
                          (unat (offset_roll (extract_ptr mq) (file_size mq) 0)) 8)))"
  shows "PERSIMQ_get mq f buffer buffer_size msg_size_out
           = (False, mq,
              f\<lparr>fpos := fpos (fst (snd (snd (PERSIMQ_get mq f buffer buffer_size msg_size_out))))\<rparr>,
              buffer,
              store_out msg_size_out (ucast (message_size (TMessageHeader_of
                       (naive_read 45 (unat (file_size mq)) (content f)
                          (unat (offset_roll (extract_ptr mq) (file_size mq) 0)) 8)))))"
proof -
  obtain p where "PERSIMQ_read_message_header mq f (extract_ptr mq)
           = (Some (TMessageHeader_of (naive_read 45 (unat (file_size mq)) (content f)
                       (unat (offset_roll (extract_ptr mq) (file_size mq) 0)) 8)),
              mq, f\<lparr>fpos := p\<rparr>)"
    using read_message_header_valid [OF opened size fl tag] by blast
  then show ?thesis
    using opened nonempty small
    by (simp add: PERSIMQ_get_def PERSIMQ_messages_available_def Let_def)
qed

theorem get_buffer_too_small_witness:
  "fd one_message_handle \<noteq> 0
   \<and> count_messages one_message_handle \<noteq> 0
   \<and> sizeof_TFileHeader + sizeof_TMessageHeader + 1 <s file_size one_message_handle
   \<and> unat (file_size one_message_handle) \<le> length (content one_message_file)
   \<and> mh_ID (TMessageHeader_of (naive_read 45 (unat (file_size one_message_handle))
               (content one_message_file)
               (unat (offset_roll (extract_ptr one_message_handle) (file_size one_message_handle) 0)) 8))
       = message_magic
   \<and> (10 :: size_t) < ucast (message_size (TMessageHeader_of
               (naive_read 45 (unat (file_size one_message_handle)) (content one_message_file)
                  (unat (offset_roll (extract_ptr one_message_handle)
                           (file_size one_message_handle) 0)) 8)))
   \<and> PERSIMQ_get one_message_handle one_message_file (replicate 10 0) 10 (Some 0)
       = (False, one_message_handle, one_message_file\<lparr>fpos := 53\<rparr>, replicate 10 0, Some 17)"
proof -
  have h1: "fd one_message_handle \<noteq> 0"
    by (simp add: one_message_handle_def)
  have h2: "count_messages one_message_handle \<noteq> 0"
    by (simp add: one_message_handle_def)
  have h3: "sizeof_TFileHeader + sizeof_TMessageHeader + 1 <s file_size one_message_handle"
    by (simp add: one_message_handle_def sizeof_TFileHeader_def sizeof_TMessageHeader_def
          word_sless_alt)
  have h4: "unat (file_size one_message_handle) \<le> length (content one_message_file)"
    by code_simp
  have h5: "mh_ID (TMessageHeader_of (naive_read 45 (unat (file_size one_message_handle))
               (content one_message_file)
               (unat (offset_roll (extract_ptr one_message_handle) (file_size one_message_handle) 0)) 8))
       = message_magic"
    by code_simp
  have h6: "(10 :: size_t) < ucast (message_size (TMessageHeader_of
               (naive_read 45 (unat (file_size one_message_handle)) (content one_message_file)
                  (unat (offset_roll (extract_ptr one_message_handle)
                           (file_size one_message_handle) 0)) 8)))"
    by code_simp
  have run: "PERSIMQ_get one_message_handle one_message_file (replicate 10 0) 10 (Some 0)
       = (False, one_message_handle, one_message_file\<lparr>fpos := 53\<rparr>, replicate 10 0, Some 17)"
    by code_simp
  have "fst (snd (PERSIMQ_get one_message_handle one_message_file (replicate 10 0) 10 (Some 0)))
          = one_message_handle"
    using get_buffer_too_small [OF h1 h2 h3 h4 h5 h6, of "replicate 10 0" "Some 0"]
    by (metis fst_conv snd_conv)
  then show ?thesis
    using h1 h2 h3 h4 h5 h6 run by blast
qed

subsection \<open>The count reported by get_all\<close>

text \<open>The count \<^verbatim>\<open>PERSIMQ_get_all\<close> reports never exceeds \<^verbatim>\<open>max_messages\<close> nor the number of
  live messages.\<close>

lemma read_message_header_counts:
  "PERSIMQ_read_message_header mq f off0 = (h, mq1, f1) \<Longrightarrow> count_messages mq1 = count_messages mq"
  by (auto simp: PERSIMQ_read_message_header_def Let_def split: prod.splits if_splits)

lemma read_message_data_counts:
  "PERSIMQ_read_message_data mq f buffer buffer_size n crc p = (r, mq1, f1, b1)
     \<Longrightarrow> count_messages mq1 = count_messages mq"
  by (auto simp: PERSIMQ_read_message_data_def split: prod.splits if_splits)

lemma get_all_loop_exit:
  "\<not> (message_idx < count_messages mq \<and> message_idx < max_messages)
     \<Longrightarrow> get_all_loop mq f filled buffer buffer_size max_messages message_idx current_ptr
           = Inr (True, mq, f, filled @ buffer, buffer_size, message_idx)"
  by (subst get_all_loop.simps) auto

lemma get_all_loop_step:
  "message_idx < count_messages mq \<and> message_idx < max_messages
     \<Longrightarrow> get_all_loop mq f filled buffer buffer_size max_messages message_idx current_ptr
           = (case PERSIMQ_read_message_header mq f current_ptr of
           (None, mq1, f1) \<Rightarrow> Inl (mq1, f1, filled @ buffer)
         | (Some header, mq1, f1) \<Rightarrow>
             if ucast (message_size header) > buffer_size
             then Inr (True, mq1, f1, filled @ buffer, buffer_size, message_idx + 1)
             else case PERSIMQ_read_message_data mq1 f1 buffer buffer_size
                         (ucast (message_size header)) (message_crc header)
                         (current_ptr + sizeof_TMessageHeader)
                    of (r, mq2, f2, buffer2) \<Rightarrow>
                  if \<not> r then Inr (False, mq2, f2, filled @ buffer2, buffer_size, message_idx + 1)
                  else get_all_loop mq2 f2
                         (filled @ take (unat (message_size header)) buffer2)
                         (drop (unat (message_size header)) buffer2)
                         (buffer_size - ucast (message_size header))
                         max_messages (message_idx + 1)
                         (offset_roll current_ptr (file_size mq2)
                            (ucast (message_size header) + sizeof_TMessageHeader)))"
  by (subst get_all_loop.simps) simp

lemma get_all_loop_bounds:
  assumes "get_all_loop mq f filled buffer buffer_size max_messages message_idx current_ptr
             = Inr (r, mq', f', buffer', buffer_size', message_idx')"
    and "message_idx \<le> max_messages" and "message_idx \<le> count_messages mq"
  shows "message_idx' \<le> max_messages \<and> message_idx' \<le> count_messages mq
         \<and> message_idx \<le> message_idx'"
  using assms
proof (induction mq f filled buffer buffer_size max_messages message_idx current_ptr
        rule: get_all_loop.induct)
  case (1 mq f filled buffer buffer_size max_messages message_idx current_ptr)
  show ?case
  proof (cases "message_idx < count_messages mq \<and> message_idx < max_messages")
    case False
    then show ?thesis
      using "1.prems" by (simp add: get_all_loop_exit)
  next
    case True
    then have inc: "message_idx + 1 \<le> max_messages" "message_idx + 1 \<le> count_messages mq"
      by (simp_all add: inc_le)
    have inc3: "message_idx \<le> message_idx + 1"
      using True by unat_arith
    note step = "1.prems"(1) [unfolded get_all_loop_step [OF True]]
    obtain h mq1 f1 where hd: "PERSIMQ_read_message_header mq f current_ptr = (h, mq1, f1)"
      by (cases "PERSIMQ_read_message_header mq f current_ptr") auto
    then obtain header where h: "h = Some header"
      using step by (cases h; simp)
    have c1: "count_messages mq1 = count_messages mq"
      using hd by (rule read_message_header_counts)
    show ?thesis
    proof (cases "ucast (message_size header) > buffer_size")
      case big: True
      then show ?thesis
        using step hd h inc inc3 by simp
    next
      case fits: False
      obtain r2 mq2 f2 buffer2 where rd:
        "PERSIMQ_read_message_data mq1 f1 buffer buffer_size (ucast (message_size header))
           (message_crc header) (current_ptr + sizeof_TMessageHeader) = (r2, mq2, f2, buffer2)"
        by (metis prod_cases4)
      have c2: "count_messages mq2 = count_messages mq"
        using read_message_data_counts [OF rd] c1 by simp
      show ?thesis
      proof (cases r2)
        case False
        then show ?thesis
          using step hd h fits rd inc inc3 by simp
      next
        case r2: True
        have rec: "get_all_loop mq2 f2 (filled @ take (unat (message_size header)) buffer2)
                     (drop (unat (message_size header)) buffer2)
                     (buffer_size - ucast (message_size header)) max_messages (message_idx + 1)
                     (offset_roll current_ptr (file_size mq2)
                        (ucast (message_size header) + sizeof_TMessageHeader))
                   = Inr (r, mq', f', buffer', buffer_size', message_idx')"
          using step hd h fits rd r2 by simp
        have "message_idx' \<le> max_messages \<and> message_idx' \<le> count_messages mq2
                \<and> message_idx + 1 \<le> message_idx'"
          using "1.IH" [OF True hd [symmetric] h refl fits rd [symmetric] refl refl _ rec]
            r2 inc c2 by simp
        then show ?thesis
          using c2 inc3 by auto
      qed
    qed
  qed
qed


lemma get_all_count_bounds:
  assumes "PERSIMQ_get_all mq f buffer buffer_size max_messages total_size (Some c0)
             = (True, mq', f', buffer', total_size', Some c)"
  shows "c \<le> max_messages \<and> c \<le> count_messages mq"
proof -
  from assms obtain r mq1 f1 buffer1 buffer_size1 where
    loop: "get_all_loop mq f [] buffer buffer_size max_messages 0 (extract_ptr mq)
             = Inr (r, mq1, f1, buffer1, buffer_size1, c)"
    by (auto simp: PERSIMQ_get_all_def store_out_def split: if_splits sum.splits prod.splits)
  show ?thesis
    using get_all_loop_bounds [OF loop] by simp
qed

text \<open>
  C6 says the count stored through \<^verbatim>\<open>messages_read\<close> is the number of messages copied into
  the buffer. \<^verbatim>\<open>PERSIMQ_get_all\<close> increments \<^verbatim>\<open>message_idx\<close> before it reads the header and
  leaves the loop without undoing that when the message does not fit. On the queue with
  one intact 17-byte message and a 10-byte buffer the call succeeds, copies nothing (the
  buffer is as before and \<^verbatim>\<open>total_size\<close> is 0) and reports one message read.
\<close>

theorem get_all_counts_uncopied_message:
  "fd one_message_handle \<noteq> 0
   \<and> PERSIMQ_messages_available one_message_handle = 1
   \<and> PERSIMQ_get_all one_message_handle one_message_file (replicate 10 0xAA) 10 5 (Some 0) (Some 0)
       = (True, one_message_handle, one_message_file\<lparr>fpos := 53\<rparr>, replicate 10 0xAA,
          Some 0, Some 1)"
  by code_simp

subsection \<open>The scenario of the example program\<close>

text \<open>
  C1, as stated, fails at its first step. A fresh queue on a 64-byte file has
  64 - 45 = 19 free bytes; the record for the 17-byte payload takes 8 + 17 = 25, so
  \<^verbatim>\<open>PERSIMQ_push\<close> returns \<^verbatim>\<open>false\<close> and changes nothing.
\<close>

theorem example_push_rejected:
  "PERSIMQ_open closed_handle \<lparr>content = [], fpos = 0\<rparr> 3 64
     = (True, empty_handle 64, blank_file 64)
   \<and> length (content (blank_file 64)) = 64
   \<and> length test_message = 17
   \<and> PERSIMQ_bytes_free (empty_handle 64) = 19
   \<and> PERSIMQ_push (empty_handle 64) (blank_file 64) test_message 17
       = (False, empty_handle 64, blank_file 64)"
proof -
  have "PERSIMQ_open closed_handle \<lparr>content = [], fpos = 0\<rparr> 3 64
          = (True, empty_handle 64, blank_file 64)"
    by code_simp
  moreover have "length (content (blank_file 64)) = 64" "length test_message = 17"
    by (simp_all add: blank_file_def test_message_def)
  moreover have "PERSIMQ_bytes_free (empty_handle 64) = 19"
    by (simp add: PERSIMQ_bytes_free_def empty_handle_def sizeof_TFileHeader_def)
  moreover have "PERSIMQ_push (empty_handle 64) (blank_file 64) test_message 17
       = (False, empty_handle 64, blank_file 64)"
    by (simp add: PERSIMQ_push_def PERSIMQ_bytes_free_def empty_handle_def sizeof_TFileHeader_def
          sizeof_TMessageHeader_def)
  ultimately show ?thesis by blast
qed

text \<open>
  C1, amended to a 70-byte file, whose data region of 25 bytes takes the record. Opening the new
  file gives the empty queue; pushing the 17 bytes of \<^verbatim>\<open>"Test message !!!"\<close> succeeds;
  \<^verbatim>\<open>PERSIMQ_close\<close> writes the header; reopening the same file with the same size recovers
  the handle, \<^verbatim>\<open>PERSIMQ_is_empty\<close> is false, \<^verbatim>\<open>PERSIMQ_get\<close> puts the same 17 bytes at the
  front of the 100-byte buffer, \<^verbatim>\<open>PERSIMQ_pop\<close> succeeds and \<^verbatim>\<open>PERSIMQ_is_empty\<close> is then
  true.
\<close>

theorem example_scenario:
  "PERSIMQ_open closed_handle \<lparr>content = [], fpos = 0\<rparr> 3 70
     = (True, empty_handle 70, blank_file 70)
   \<and> PERSIMQ_push (empty_handle 70) (blank_file 70) test_message 17
       = (True, full_handle, \<lparr>content = replicate 45 0 @ record_bytes, fpos = 70\<rparr>)
   \<and> PERSIMQ_close full_handle \<lparr>content = replicate 45 0 @ record_bytes, fpos = 70\<rparr>
       = (True, \<lparr>content = full_header @ record_bytes, fpos = 45\<rparr>)
   \<and> PERSIMQ_open closed_handle \<lparr>content = full_header @ record_bytes, fpos = 45\<rparr> 4 70
       = (True, full_handle\<lparr>fd := 4\<rparr>, \<lparr>content = full_header @ record_bytes, fpos = 45\<rparr>)
   \<and> \<not> PERSIMQ_is_empty (full_handle\<lparr>fd := 4\<rparr>)
   \<and> PERSIMQ_get (full_handle\<lparr>fd := 4\<rparr>) \<lparr>content = full_header @ record_bytes, fpos = 45\<rparr>
         (replicate 100 0) 100 None
       = (True, full_handle\<lparr>fd := 4\<rparr>, \<lparr>content = full_header @ record_bytes, fpos = 70\<rparr>,
          test_message @ replicate 83 0, None)
   \<and> PERSIMQ_pop (full_handle\<lparr>fd := 4\<rparr>) \<lparr>content = full_header @ record_bytes, fpos = 70\<rparr>
       = (True, (empty_handle 70)\<lparr>fd := 4\<rparr>, \<lparr>content = full_header @ record_bytes, fpos = 53\<rparr>)
   \<and> PERSIMQ_is_empty ((empty_handle 70)\<lparr>fd := 4\<rparr>)"
proof -
  have s1: "PERSIMQ_open closed_handle \<lparr>content = [], fpos = 0\<rparr> 3 70
              = (True, empty_handle 70, blank_file 70)"
    by code_simp
  have s2: "PERSIMQ_push (empty_handle 70) (blank_file 70) test_message 17
              = (True, full_handle, \<lparr>content = replicate 45 0 @ record_bytes, fpos = 70\<rparr>)"
    by code_simp
  have s3: "PERSIMQ_close full_handle \<lparr>content = replicate 45 0 @ record_bytes, fpos = 70\<rparr>
              = (True, \<lparr>content = full_header @ record_bytes, fpos = 45\<rparr>)"
    by code_simp
  have s4: "PERSIMQ_open closed_handle \<lparr>content = full_header @ record_bytes, fpos = 45\<rparr> 4 70
              = (True, full_handle\<lparr>fd := 4\<rparr>,
                 \<lparr>content = full_header @ record_bytes, fpos = 45\<rparr>)"
    by code_simp
  have s5: "\<not> PERSIMQ_is_empty (full_handle\<lparr>fd := 4\<rparr>)"
    by (simp add: PERSIMQ_is_empty_def full_handle_def)
  have s6: "PERSIMQ_get (full_handle\<lparr>fd := 4\<rparr>)
              \<lparr>content = full_header @ record_bytes, fpos = 45\<rparr> (replicate 100 0) 100 None
              = (True, full_handle\<lparr>fd := 4\<rparr>,
                 \<lparr>content = full_header @ record_bytes, fpos = 70\<rparr>,
                 test_message @ replicate 83 0, None)"
    by code_simp
  have s7: "PERSIMQ_pop (full_handle\<lparr>fd := 4\<rparr>)
              \<lparr>content = full_header @ record_bytes, fpos = 70\<rparr>
              = (True, (empty_handle 70)\<lparr>fd := 4\<rparr>,
                 \<lparr>content = full_header @ record_bytes, fpos = 53\<rparr>)"
    by code_simp
  have s8: "PERSIMQ_is_empty ((empty_handle 70)\<lparr>fd := 4\<rparr>)"
    by (simp add: PERSIMQ_is_empty_def empty_handle_def)
  show ?thesis
    using s1 s2 s3 s4 s5 s6 s7 s8 by blast
qed

end
